theory Spec2Isabelle
  imports Complex_Main "HOL-Library.AList"
begin

section \<open>Data model of game/theater/iadsnetwork/iadsnetwork.py\<close>

text \<open>
  The module works on objects owned by the rest of the game: ground objects
  (\<open>TheaterGroundObject\<close>), their groups (\<open>IadsGroundGroup\<close>) and the units of a group.
  They are mutable and compared by object identity, so they live in a store (\<open>world\<close>) and
  the network refers to them by reference. Classes, enum members and methods that the
  module imports from other files of the game appear as fields of the store.
\<close>

text \<open>
  \<open>IadsRole\<close>: the members this module names, and \<open>OtherRole\<close> for every member it does
  not name (SAM, SAM-as-EWR, no behaviour), tagged by its value.
\<close>

datatype IadsRole =
  EWR | COMMAND_CENTER | CONNECTION_NODE | POWER_SOURCE | POINT_DEFENSE | OtherRole string

datatype error =
  IadsNetworkException string
  | IndexError
  | KeyError
  | RuntimeError string
  | AssertionError string

type_synonym UUID = nat
type_synonym tgo_ref = nat
type_synonym group_ref = nat
type_synonym Point = "real \<times> real"

text \<open>
  A unit. \<open>skynet_properties\<close> is \<open>Some\<close> of \<open>unit_type.skynet_properties.to_dict()\<close> when
  \<open>unit_type\<close> is a \<open>GroundUnitType\<close>, and \<open>None\<close> when it is \<open>None\<close> or of another class.
\<close>

record TheaterUnit =
  unit_name :: string
  alive :: bool
  is_static :: bool
  skynet_properties :: "(string \<times> string) list option"

text \<open>
  A group of a ground object. \<open>is_iads_group\<close> is \<open>isinstance(group, IadsGroundGroup)\<close>;
  \<open>name\<close> is only used in the exception message.
\<close>

record TheaterGroup =
  ground_object :: tgo_ref
  is_iads_group :: bool
  iads_role :: IadsRole
  group_name :: string
  name :: string
  units :: "TheaterUnit list"

text \<open>
  A ground object. The three flags are the results of \<open>isinstance\<close> against
  \<open>IadsGroundObject\<close>, \<open>NavalGroundObject\<close> and \<open>IadsBuildingGroundObject\<close>.
\<close>

record TheaterGroundObject =
  original_name :: string
  category :: string
  position :: Point
  is_friendly :: "bool \<Rightarrow> bool"
  is_dead :: bool
  groups :: "group_ref list"
  is_IadsGroundObject :: bool
  is_NavalGroundObject :: bool
  is_IadsBuildingGroundObject :: bool

text \<open>
  The store and the imported operations: the role catalogue (\<open>participate\<close>,
  \<open>is_comms_or_power\<close>, \<open>connection_range\<close> in meters, \<open>for_category\<close>), the distance of
  two positions, and \<open>uuid4\<close>: the value the n-th call of \<open>uuid.uuid4()\<close> returns.
\<close>

record world =
  tgos :: "tgo_ref \<Rightarrow> TheaterGroundObject"
  grps :: "group_ref \<Rightarrow> TheaterGroup"
  participate :: "IadsRole \<Rightarrow> bool"
  is_comms_or_power :: "IadsRole \<Rightarrow> bool"
  connection_range :: "IadsRole \<Rightarrow> real"
  for_category :: "string \<Rightarrow> IadsRole"
  distance_to_point :: "Point \<Rightarrow> Point \<Rightarrow> real"
  uuid4 :: "nat \<Rightarrow> UUID"

text \<open>\<open>SkynetNode\<close>; \<open>sk_connections\<close> is the \<open>defaultdict(list)\<close>, keyed by the role.\<close>

record SkynetNode =
  dcs_name :: string
  player :: bool
  sk_iads_role :: IadsRole
  properties :: "(string \<times> string) list"
  sk_connections :: "IadsRole \<Rightarrow> string list"

text \<open>\<open>IadsNetworkNode\<close>; the dict \<open>connections\<close> keeps its insertion order.\<close>

record IadsNetworkNode =
  group :: group_ref
  connections :: "(UUID \<times> group_ref) list"

text \<open>
  \<open>IadsNetwork\<close>. \<open>draws\<close> counts the calls of \<open>uuid.uuid4()\<close> made so far. A node of
  \<open>nodes\<close> is addressed by its index.
\<close>

record IadsNetwork =
  advanced_iads :: bool
  ground_objects :: "(string \<times> tgo_ref) list"
  nodes :: "IadsNetworkNode list"
  iads_config :: "(string \<times> string list) list"
  draws :: nat

text \<open>The two calls on \<open>GameUpdateEvents\<close>; a node is named by its primary group.\<close>

datatype event = UpdateIadsNode group_ref | DeleteIadsConnection UUID

datatype iads_data_element =
  ConfigStr string | ConfigDict "(string \<times> string list) list" | ConfigOther

section \<open>SkynetNode\<close>

text \<open>Modelled from the spec: \<open>alive_units\<close> of a group, the number of its living units.\<close>

definition alive_units :: "TheaterGroup \<Rightarrow> nat" where
  "alive_units g = length (filter alive (units g))"

definition dcs_name_for_group :: "TheaterGroup \<Rightarrow> error + string" where
  "dcs_name_for_group g =
     (if iads_role g \<in> set [EWR, COMMAND_CENTER, CONNECTION_NODE, POWER_SOURCE] then
        (case find alive (units g) of
           Some u \<Rightarrow> Inr (unit_name u)
         | None \<Rightarrow>
            (case units g of
               [] \<Rightarrow> Inl IndexError
             | u0 # _ \<Rightarrow>
                 if is_static u0 then Inr (unit_name u0)
                 else Inl (IadsNetworkException (name g @ '' has no skynet usable units''))))
      else Inr (group_name g))"

definition from_group :: "world \<Rightarrow> TheaterGroup \<Rightarrow> error + SkynetNode" where
  "from_group w g =
     (case dcs_name_for_group g of
        Inl e \<Rightarrow> Inl e
      | Inr nm \<Rightarrow>
         (case units g of
            [] \<Rightarrow> Inl IndexError
          | u0 # _ \<Rightarrow>
              Inr \<lparr>dcs_name = nm,
                   player = is_friendly (tgos w (ground_object g)) True,
                   sk_iads_role = iads_role g,
                   properties = (case skynet_properties u0 of None \<Rightarrow> [] | Some p \<Rightarrow> p),
                   sk_connections = (\<lambda>_. [])\<rparr>))"

section \<open>IadsNetworkNode\<close>

text \<open>
  The methods of a node take the node together with the count of uuid draws and return
  both updated. \<open>self.connections[uuid.uuid4()] = group\<close> overwrites an entry whose key
  is drawn again.
\<close>

definition add_connection_for_group ::
  "world \<Rightarrow> group_ref \<Rightarrow> IadsNetworkNode \<times> nat \<Rightarrow> IadsNetworkNode \<times> nat" where
  "add_connection_for_group w g nd =
     (fst nd\<lparr>connections := AList.update (uuid4 w (snd nd)) g (connections (fst nd))\<rparr>,
      Suc (snd nd))"

fun add_connection_for_groups ::
  "world \<Rightarrow> group_ref list \<Rightarrow> IadsNetworkNode \<times> nat \<Rightarrow> IadsNetworkNode \<times> nat" where
  "add_connection_for_groups w [] nd = nd"
| "add_connection_for_groups w (g # gs) nd =
     (if is_iads_group (grps w g) \<and> participate w (iads_role (grps w g))
      then add_connection_for_groups w gs (add_connection_for_group w g nd)
      else add_connection_for_groups w gs nd)"

definition add_connection_for_tgo ::
  "world \<Rightarrow> tgo_ref \<Rightarrow> IadsNetworkNode \<times> nat \<Rightarrow> IadsNetworkNode \<times> nat" where
  "add_connection_for_tgo w t nd = add_connection_for_groups w (groups (tgos w t)) nd"

text \<open>\<open>del node.connections[cID]\<close>.\<close>

definition del_connection ::
  "UUID \<Rightarrow> (UUID \<times> group_ref) list \<Rightarrow> error + (UUID \<times> group_ref) list" where
  "del_connection cID c =
     (if cID \<in> set (map fst c) then Inr (AList.delete cID c) else Inl KeyError)"

section \<open>IadsNetwork\<close>

fun load_iads_config ::
  "iads_data_element list \<Rightarrow> (string \<times> string list) list \<Rightarrow>
   error + (string \<times> string list) list" where
  "load_iads_config [] cfg = Inr cfg"
| "load_iads_config (ConfigStr e # es) cfg = load_iads_config es (AList.update e [] cfg)"
| "load_iads_config (ConfigDict d # es) cfg =
     load_iads_config es (foldl (\<lambda>c kv. AList.update (fst kv) (snd kv) c) cfg d)"
| "load_iads_config (ConfigOther # es) cfg =
     Inl (RuntimeError ''Invalid iads_config in campaign'')"

definition IadsNetwork_init :: "bool \<Rightarrow> iads_data_element list \<Rightarrow> error + IadsNetwork" where
  "IadsNetwork_init advanced iads_data =
     (case load_iads_config iads_data [] of
        Inl e \<Rightarrow> Inl e
      | Inr cfg \<Rightarrow>
          Inr \<lparr>advanced_iads = advanced, ground_objects = [], nodes = [],
               iads_config = cfg, draws = 0\<rparr>)"

text \<open>Run a node method on the node at index \<open>i\<close> of the network.\<close>

definition on_node ::
  "nat \<Rightarrow> (IadsNetworkNode \<times> nat \<Rightarrow> IadsNetworkNode \<times> nat) \<Rightarrow> IadsNetwork \<Rightarrow> IadsNetwork" where
  "on_node i f s =
     (let r = f (nodes s ! i, draws s) in s\<lparr>nodes := (nodes s)[i := fst r], draws := snd r\<rparr>)"

fun index_where :: "('a \<Rightarrow> bool) \<Rightarrow> 'a list \<Rightarrow> nat option" where
  "index_where P [] = None"
| "index_where P (x # xs) = (if P x then Some 0 else map_option Suc (index_where P xs))"

text \<open>The ground object a node is anchored on: \<open>node.group.ground_object\<close>.\<close>

definition node_tgo :: "world \<Rightarrow> IadsNetworkNode \<Rightarrow> tgo_ref" where
  "node_tgo w cn = ground_object (grps w (group cn))"

definition node_for_group :: "group_ref \<Rightarrow> IadsNetwork \<Rightarrow> IadsNetwork \<times> nat" where
  "node_for_group g s =
     (case index_where (\<lambda>cn. group cn = g) (nodes s) of
        Some i \<Rightarrow> (s, i)
      | None \<Rightarrow> (s\<lparr>nodes := nodes s @ [\<lparr>group = g, connections = []\<rparr>]\<rparr>, length (nodes s)))"

text \<open>The loop of \<open>node_for_tgo\<close> over \<open>tgo.groups\<close>; \<open>node\<close> is the local variable.\<close>

fun node_for_tgo_groups ::
  "world \<Rightarrow> group_ref list \<Rightarrow> nat option \<Rightarrow> IadsNetwork \<Rightarrow> IadsNetwork \<times> nat option" where
  "node_for_tgo_groups w [] node s = (s, node)"
| "node_for_tgo_groups w (g # gs) node s =
     (if is_iads_group (grps w g) \<and> alive_units (grps w g) > 0 then
        (case node of
           None \<Rightarrow>
             if participate w (iads_role (grps w g))
             then (case node_for_group g s of (s', i) \<Rightarrow> node_for_tgo_groups w gs (Some i) s')
             else node_for_tgo_groups w gs None s
         | Some i \<Rightarrow>
             if iads_role (grps w g) = POINT_DEFENSE
             then node_for_tgo_groups w gs (Some i) (on_node i (add_connection_for_group w g) s)
             else node_for_tgo_groups w gs (Some i) s)
      else node_for_tgo_groups w gs node s)"

definition node_for_tgo ::
  "world \<Rightarrow> tgo_ref \<Rightarrow> IadsNetwork \<Rightarrow> IadsNetwork \<times> nat option" where
  "node_for_tgo w t s =
     (case index_where (\<lambda>cn. node_tgo w cn = t) (nodes s) of
        Some i \<Rightarrow> (s, Some i)
      | None \<Rightarrow> node_for_tgo_groups w (groups (tgos w t)) None s)"

definition IadsNetwork_is_friendly :: "world \<Rightarrow> IadsNetworkNode \<Rightarrow> tgo_ref \<Rightarrow> bool" where
  "IadsNetwork_is_friendly w node t =
     (is_friendly (tgos w (node_tgo w node)) True = is_friendly (tgos w t) True)"

text \<open>The loop of \<open>_make_advanced_connections_by_range\<close> over the registry's values.\<close>

fun make_advanced_connections_loop ::
  "world \<Rightarrow> tgo_ref list \<Rightarrow> IadsNetworkNode \<times> nat \<Rightarrow> IadsNetworkNode \<times> nat" where
  "make_advanced_connections_loop w [] nd = nd"
| "make_advanced_connections_loop w (nearby_go # rest) nd =
     (let tgo = node_tgo w (fst nd);
          role = for_category w (category (tgos w nearby_go))
      in if \<not> is_comms_or_power w role \<or> nearby_go = tgo
         then make_advanced_connections_loop w rest nd
         else if distance_to_point w (position (tgos w nearby_go)) (position (tgos w tgo))
                   \<le> connection_range w role
                 \<and> IadsNetwork_is_friendly w (fst nd) nearby_go
         then make_advanced_connections_loop w rest (add_connection_for_tgo w nearby_go nd)
         else make_advanced_connections_loop w rest nd)"

definition make_advanced_connections_by_range ::
  "world \<Rightarrow> nat \<Rightarrow> IadsNetwork \<Rightarrow> IadsNetwork" where
  "make_advanced_connections_by_range w i s =
     on_node i (make_advanced_connections_loop w (map snd (ground_objects s))) s"

text \<open>
  \<open>self.iads_config[primary_node]\<close> on the \<open>defaultdict(list)\<close>: a missing key is
  inserted with the empty list.
\<close>

definition defaultdict_getitem ::
  "string \<Rightarrow> (string \<times> string list) list \<Rightarrow> string list \<times> (string \<times> string list) list" where
  "defaultdict_getitem k cfg =
     (case map_of cfg k of Some v \<Rightarrow> (v, cfg) | None \<Rightarrow> ([], cfg @ [(k, [])]))"

text \<open>The loop of \<open>_add_connections_from_config\<close>; a \<open>KeyError\<close> of the registry is caught.\<close>

fun add_connections_from_config_loop ::
  "world \<Rightarrow> (string \<times> tgo_ref) list \<Rightarrow> string list \<Rightarrow> IadsNetworkNode \<times> nat \<Rightarrow>
   IadsNetworkNode \<times> nat" where
  "add_connections_from_config_loop w reg [] nd = nd"
| "add_connections_from_config_loop w reg (secondary_node # rest) nd =
     (case map_of reg secondary_node of
        None \<Rightarrow> add_connections_from_config_loop w reg rest nd
      | Some t \<Rightarrow> add_connections_from_config_loop w reg rest (add_connection_for_tgo w t nd))"

definition add_connections_from_config :: "world \<Rightarrow> nat \<Rightarrow> IadsNetwork \<Rightarrow> IadsNetwork" where
  "add_connections_from_config w i s =
     (let primary_node = original_name (tgos w (node_tgo w (nodes s ! i)));
          r = defaultdict_getitem primary_node (iads_config s)
      in on_node i (add_connections_from_config_loop w (ground_objects s) (fst r))
           (s\<lparr>iads_config := snd r\<rparr>))"

text \<open>
  The loop of \<open>initialize_network_from_config\<close> over \<open>self.iads_config.keys()\<close>. The dict
  iterator raises when the dict has grown since the loop started.
\<close>

fun initialize_network_from_config_loop ::
  "world \<Rightarrow> string list \<Rightarrow> IadsNetwork \<Rightarrow> error + IadsNetwork" where
  "initialize_network_from_config_loop w [] s = Inr s"
| "initialize_network_from_config_loop w (primary_node # rest) s =
     (let r = (case map_of (ground_objects s) primary_node of
                 Some t \<Rightarrow> node_for_tgo w t s
               | None \<Rightarrow> (s, None));
          s' = (case snd r of
                  None \<Rightarrow> fst r
                | Some i \<Rightarrow> add_connections_from_config w i (fst r))
      in if length (iads_config s') \<noteq> length (iads_config s)
         then Inl (RuntimeError ''dictionary changed size during iteration'')
         else initialize_network_from_config_loop w rest s')"

definition initialize_network_from_config :: "world \<Rightarrow> IadsNetwork \<Rightarrow> error + IadsNetwork" where
  "initialize_network_from_config w s =
     initialize_network_from_config_loop w (map fst (iads_config s)) s"

fun initialize_network_from_range_loop ::
  "world \<Rightarrow> tgo_ref list \<Rightarrow> IadsNetwork \<Rightarrow> IadsNetwork" where
  "initialize_network_from_range_loop w [] s = s"
| "initialize_network_from_range_loop w (go # rest) s =
     (let is_iads_go = is_IadsGroundObject (tgos w go);
          is_iads_sea = is_NavalGroundObject (tgos w go);
          is_iads_cc = (is_IadsBuildingGroundObject (tgos w go)
                        \<and> for_category w (category (tgos w go)) = COMMAND_CENTER)
      in if is_iads_go \<or> is_iads_sea \<or> is_iads_cc then
           (case node_for_tgo w go s of
              (s', None) \<Rightarrow> initialize_network_from_range_loop w rest s'
            | (s', Some i) \<Rightarrow>
                initialize_network_from_range_loop w rest
                  (make_advanced_connections_by_range w i s'))
         else initialize_network_from_range_loop w rest s)"

definition initialize_network_from_range :: "world \<Rightarrow> IadsNetwork \<Rightarrow> IadsNetwork" where
  "initialize_network_from_range w s =
     initialize_network_from_range_loop w (map snd (ground_objects s)) s"

fun initialize_basic_iads_loop :: "world \<Rightarrow> tgo_ref list \<Rightarrow> IadsNetwork \<Rightarrow> IadsNetwork" where
  "initialize_basic_iads_loop w [] s = s"
| "initialize_basic_iads_loop w (go # rest) s =
     (if is_IadsGroundObject (tgos w go)
      then initialize_basic_iads_loop w rest (fst (node_for_tgo w go s))
      else initialize_basic_iads_loop w rest s)"

definition initialize_basic_iads :: "world \<Rightarrow> IadsNetwork \<Rightarrow> IadsNetwork" where
  "initialize_basic_iads w s = initialize_basic_iads_loop w (map snd (ground_objects s)) s"

text \<open>The first loop of \<open>initialize_network\<close>: \<open>self.ground_objects[tgo.original_name] = tgo\<close>.\<close>

definition register_ground_objects ::
  "world \<Rightarrow> tgo_ref list \<Rightarrow> (string \<times> tgo_ref) list \<Rightarrow> (string \<times> tgo_ref) list" where
  "register_ground_objects w gos reg =
     foldl (\<lambda>r t. AList.update (original_name (tgos w t)) t r) reg gos"

text \<open>The advanced branch of \<open>initialize_network\<close>, before the test \<open>if not self.nodes\<close>.\<close>

definition initialize_advanced :: "world \<Rightarrow> IadsNetwork \<Rightarrow> error + IadsNetwork" where
  "initialize_advanced w s =
     (if advanced_iads s then
        (if iads_config s \<noteq> [] then initialize_network_from_config w s
         else Inr (initialize_network_from_range w s))
      else Inr s)"

definition initialize_network ::
  "world \<Rightarrow> tgo_ref list \<Rightarrow> IadsNetwork \<Rightarrow> error + IadsNetwork" where
  "initialize_network w gos s =
     (case initialize_advanced w
             (s\<lparr>ground_objects := register_ground_objects w gos (ground_objects s)\<rparr>) of
        Inl e \<Rightarrow> Inl e
      | Inr s' \<Rightarrow> Inr (if nodes s' = [] then initialize_basic_iads w s' else s'))"

section \<open>Updates\<close>

text \<open>
  The loop of \<open>_update_network\<close> over \<open>self.nodes\<close>, with the count of uuid draws; it
  returns the nodes, the count and the events.
\<close>

fun update_network_loop ::
  "world \<Rightarrow> tgo_ref \<Rightarrow> IadsNetworkNode list \<Rightarrow> nat \<Rightarrow>
   IadsNetworkNode list \<times> nat \<times> event list" where
  "update_network_loop w tgo [] d = ([], d, [])"
| "update_network_loop w tgo (node # rest) d =
     (let iads_role = for_category w (category (tgos w tgo));
          dist = distance_to_point w (position (tgos w (node_tgo w node))) (position (tgos w tgo));
          in_range = (dist < connection_range w iads_role)
      in if in_range \<and> IadsNetwork_is_friendly w node tgo then
           (case add_connection_for_tgo w tgo (node, d) of
              (node', d') \<Rightarrow>
                (case update_network_loop w tgo rest d' of
                   (rest', d'', evs) \<Rightarrow>
                     (node' # rest', d'', UpdateIadsNode (group node) # evs)))
         else
           (case update_network_loop w tgo rest d of
              (rest', d'', evs) \<Rightarrow> (node # rest', d'', evs)))"

definition update_network :: "world \<Rightarrow> tgo_ref \<Rightarrow> IadsNetwork \<Rightarrow> IadsNetwork \<times> event list" where
  "update_network w tgo s =
     (if is_dead (tgos w tgo) then (s, [])
      else if \<not> is_comms_or_power w (for_category w (category (tgos w tgo))) then (s, [])
      else (case update_network_loop w tgo (nodes s) (draws s) of
              (ns, d, evs) \<Rightarrow> (s\<lparr>nodes := ns, draws := d\<rparr>, evs)))"

text \<open>
  The inner loop of \<open>_update_iads_comms_and_power\<close> over the connections of one node:
  the ids to delete and the events, both in the order of the dict.
\<close>

fun scan_connections ::
  "world \<Rightarrow> tgo_ref \<Rightarrow> IadsNetworkNode \<Rightarrow> (UUID \<times> group_ref) list \<Rightarrow> UUID list \<times> event list" where
  "scan_connections w tgo node [] = ([], [])"
| "scan_connections w tgo node (c # cs) =
     (case scan_connections w tgo node cs of
        (to_delete, evs) \<Rightarrow>
          if ground_object (grps w (snd c)) = tgo then
            (if IadsNetwork_is_friendly w node tgo
             then (to_delete, UpdateIadsNode (group node) # evs)
             else (fst c # to_delete, DeleteIadsConnection (fst c) # evs))
          else (to_delete, evs))"

fun del_connections ::
  "UUID list \<Rightarrow> (UUID \<times> group_ref) list \<Rightarrow> error + (UUID \<times> group_ref) list" where
  "del_connections [] c = Inr c"
| "del_connections (cID # rest) c =
     (case del_connection cID c of Inl e \<Rightarrow> Inl e | Inr c' \<Rightarrow> del_connections rest c')"

fun update_iads_comms_and_power_loop ::
  "world \<Rightarrow> tgo_ref \<Rightarrow> IadsNetworkNode list \<Rightarrow> error + IadsNetworkNode list \<times> event list" where
  "update_iads_comms_and_power_loop w tgo [] = Inr ([], [])"
| "update_iads_comms_and_power_loop w tgo (node # rest) =
     (case scan_connections w tgo node (connections node) of
        (to_delete, evs) \<Rightarrow>
          (case del_connections to_delete (connections node) of
             Inl e \<Rightarrow> Inl e
           | Inr c' \<Rightarrow>
              (case update_iads_comms_and_power_loop w tgo rest of
                 Inl e \<Rightarrow> Inl e
               | Inr (rest', evs') \<Rightarrow> Inr (node\<lparr>connections := c'\<rparr> # rest', evs @ evs'))))"

definition update_iads_comms_and_power ::
  "world \<Rightarrow> tgo_ref \<Rightarrow> IadsNetwork \<Rightarrow> error + IadsNetwork \<times> event list" where
  "update_iads_comms_and_power w tgo s =
     (if \<not> advanced_iads s
      then Inl (AssertionError ''_update_iads_comms_and_power requires advanced IADS'')
      else if \<not> is_comms_or_power w (for_category w (category (tgos w tgo)))
      then Inl (AssertionError ''Invalid TGO was given for _update_iads_building'')
      else
        (case update_iads_comms_and_power_loop w tgo (nodes s) of
           Inl e \<Rightarrow> Inl e
         | Inr (ns, evs) \<Rightarrow>
             if iads_config s = []
             then (case update_network w tgo (s\<lparr>nodes := ns\<rparr>) of
                     (s', evs') \<Rightarrow> Inr (s', evs @ evs'))
             else Inr (s\<lparr>nodes := ns\<rparr>, evs)))"

text \<open>
  The first loop of \<open>update_tgo\<close>: \<open>for cn in self.nodes\<close> with \<open>self.nodes.remove(cn)\<close> in
  its body. The list iterator keeps an index; after a removal the list has moved up by
  one, so the node that followed the removed one is not visited. A node is appended to
  \<open>self.nodes\<close> once, when it is created, so \<open>remove(cn)\<close> removes the node visited.
\<close>

fun remove_existing_nodes ::
  "world \<Rightarrow> tgo_ref \<Rightarrow> IadsNetworkNode list \<Rightarrow> IadsNetworkNode list \<times> event list" where
  "remove_existing_nodes w tgo [] = ([], [])"
| "remove_existing_nodes w tgo [cn] =
     (if node_tgo w cn = tgo
      then ([], map DeleteIadsConnection (map fst (connections cn)))
      else ([cn], []))"
| "remove_existing_nodes w tgo (cn # skipped # rest) =
     (if node_tgo w cn = tgo then
        (case remove_existing_nodes w tgo rest of
           (ns, evs) \<Rightarrow>
             (skipped # ns, map DeleteIadsConnection (map fst (connections cn)) @ evs))
      else
        (case remove_existing_nodes w tgo (skipped # rest) of
           (ns, evs) \<Rightarrow> (cn # ns, evs)))"

definition update_tgo ::
  "world \<Rightarrow> tgo_ref \<Rightarrow> IadsNetwork \<Rightarrow> error + IadsNetwork \<times> event list" where
  "update_tgo w tgo s =
     (if advanced_iads s \<and> is_comms_or_power w (for_category w (category (tgos w tgo)))
      then update_iads_comms_and_power w tgo s
      else
        (case remove_existing_nodes w tgo (nodes s) of
           (ns, evs) \<Rightarrow>
             (case node_for_tgo w tgo (s\<lparr>nodes := ns\<rparr>) of
                (s', None) \<Rightarrow> Inr (s', evs)
              | (s', Some i) \<Rightarrow>
                  Inr (if advanced_iads s' then
                         (if iads_config s' \<noteq> [] then add_connections_from_config w i s'
                          else make_advanced_connections_by_range w i s')
                       else s',
                       evs @ [UpdateIadsNode (group (nodes s' ! i))]))))"

section \<open>Projection\<close>

text \<open>
  The loop of \<open>skynet_nodes\<close> over \<open>node.connections.values()\<close>; \<open>culling\<close> is
  \<open>game.iads_considerate_culling\<close>.
\<close>

fun skynet_connections ::
  "world \<Rightarrow> (tgo_ref \<Rightarrow> bool) \<Rightarrow> group_ref list \<Rightarrow> SkynetNode \<Rightarrow> error + SkynetNode" where
  "skynet_connections w culling [] skynet_node = Inr skynet_node"
| "skynet_connections w culling (c # cs) skynet_node =
     (let connection = grps w c in
      if \<not> list_ex alive (units connection)
      then skynet_connections w culling cs skynet_node
      else if is_friendly (tgos w (ground_object connection)) (player skynet_node)
              \<and> \<not> culling (ground_object connection)
      then (case dcs_name_for_group connection of
              Inl e \<Rightarrow> Inl e
            | Inr nm \<Rightarrow>
                skynet_connections w culling cs
                  (skynet_node\<lparr>sk_connections :=
                     (sk_connections skynet_node)
                       (iads_role connection :=
                          sk_connections skynet_node (iads_role connection) @ [nm])\<rparr>))
      else skynet_connections w culling cs skynet_node)"

fun skynet_nodes_loop ::
  "world \<Rightarrow> (tgo_ref \<Rightarrow> bool) \<Rightarrow> IadsNetworkNode list \<Rightarrow> error + SkynetNode list" where
  "skynet_nodes_loop w culling [] = Inr []"
| "skynet_nodes_loop w culling (node # rest) =
     (if culling (node_tgo w node) then skynet_nodes_loop w culling rest
      else if \<not> list_ex alive (units (grps w (group node)))
      then skynet_nodes_loop w culling rest
      else
        (case from_group w (grps w (group node)) of
           Inl e \<Rightarrow> Inl e
         | Inr skynet_node \<Rightarrow>
            (case skynet_connections w culling (map snd (connections node)) skynet_node of
               Inl e \<Rightarrow> Inl e
             | Inr skynet_node' \<Rightarrow>
                (case skynet_nodes_loop w culling rest of
                   Inl e \<Rightarrow> Inl e
                 | Inr skynet_nodes \<Rightarrow> Inr (skynet_node' # skynet_nodes)))))"

definition skynet_nodes ::
  "world \<Rightarrow> (tgo_ref \<Rightarrow> bool) \<Rightarrow> IadsNetwork \<Rightarrow> error + SkynetNode list" where
  "skynet_nodes w culling s = skynet_nodes_loop w culling (nodes s)"

section \<open>The projection as the specification words it\<close>

text \<open>
  The identity name of a group: for the four name-bearing roles the name of the first
  living unit, else the name of the first unit; for every other role the group's name.
\<close>

definition identity_name :: "TheaterGroup \<Rightarrow> string" where
  "identity_name g =
     (if iads_role g \<in> set [EWR, COMMAND_CENTER, CONNECTION_NODE, POWER_SOURCE] then
        (case find alive (units g) of
           Some u \<Rightarrow> unit_name u
         | None \<Rightarrow> (case units g of u0 # _ \<Rightarrow> unit_name u0 | [] \<Rightarrow> []))
      else group_name g)"

text \<open>A node is projected when it is not culled and its primary group has a living unit.\<close>

definition node_included :: "world \<Rightarrow> (tgo_ref \<Rightarrow> bool) \<Rightarrow> IadsNetworkNode \<Rightarrow> bool" where
  "node_included w culling node =
     (\<not> culling (node_tgo w node) \<and> list_ex alive (units (grps w (group node))))"

text \<open>
  A connection of a projected node is kept when its group has a living unit, its ground
  object is friendly to the node's side and it is not culled.
\<close>

definition connection_included ::
  "world \<Rightarrow> (tgo_ref \<Rightarrow> bool) \<Rightarrow> IadsNetworkNode \<Rightarrow> group_ref \<Rightarrow> bool" where
  "connection_included w culling node c =
     (list_ex alive (units (grps w c))
      \<and> is_friendly (tgos w (ground_object (grps w c)))
           (is_friendly (tgos w (node_tgo w node)) True)
      \<and> \<not> culling (ground_object (grps w c)))"

definition project_node :: "world \<Rightarrow> (tgo_ref \<Rightarrow> bool) \<Rightarrow> IadsNetworkNode \<Rightarrow> SkynetNode" where
  "project_node w culling node =
     \<lparr>dcs_name = identity_name (grps w (group node)),
      player = is_friendly (tgos w (node_tgo w node)) True,
      sk_iads_role = iads_role (grps w (group node)),
      properties =
        (case units (grps w (group node)) of
           [] \<Rightarrow> []
         | u0 # _ \<Rightarrow> (case skynet_properties u0 of None \<Rightarrow> [] | Some p \<Rightarrow> p)),
      sk_connections =
        (\<lambda>role. map (\<lambda>c. identity_name (grps w c))
           (filter (\<lambda>c. connection_included w culling node c \<and> iads_role (grps w c) = role)
              (map snd (connections node))))\<rparr>"

definition project :: "world \<Rightarrow> (tgo_ref \<Rightarrow> bool) \<Rightarrow> IadsNetwork \<Rightarrow> SkynetNode list" where
  "project w culling s =
     map (project_node w culling) (filter (node_included w culling) (nodes s))"

section \<open>Predicates and functions used to state the properties\<close>

text \<open>
  Every group in the list of a ground object names that ground object as its owner.
\<close>

definition wf_tgo :: "world \<Rightarrow> tgo_ref \<Rightarrow> bool" where
  "wf_tgo w t = list_all (\<lambda>g. ground_object (grps w g) = t) (groups (tgos w t))"

text \<open>
  The groups \<open>node_for_tgo\<close> looks for: an IADS group with a living unit whose role
  participates (the primary group), and an IADS group with a living unit of the
  point-defence role.
\<close>

definition primary_candidate :: "world \<Rightarrow> group_ref \<Rightarrow> bool" where
  "primary_candidate w g =
     (is_iads_group (grps w g) \<and> alive_units (grps w g) > 0
      \<and> participate w (iads_role (grps w g)))"

definition point_defense_candidate :: "world \<Rightarrow> group_ref \<Rightarrow> bool" where
  "point_defense_candidate w g =
     (is_iads_group (grps w g) \<and> alive_units (grps w g) > 0
      \<and> iads_role (grps w g) = POINT_DEFENSE)"

text \<open>
  A node with connections to the groups \<open>gs\<close> appended under the next ids drawn.
\<close>

definition append_connections ::
  "world \<Rightarrow> group_ref list \<Rightarrow> IadsNetworkNode \<times> nat \<Rightarrow> IadsNetworkNode \<times> nat" where
  "append_connections w gs nd =
     (fst nd\<lparr>connections := connections (fst nd)
               @ zip (map (uuid4 w) [snd nd ..< snd nd + length gs]) gs\<rparr>,
      snd nd + length gs)"

text \<open>
  No id is drawn twice and the ids of the node were drawn before.
\<close>

definition fresh_node :: "world \<Rightarrow> IadsNetworkNode \<times> nat \<Rightarrow> bool" where
  "fresh_node w nd =
     (inj (uuid4 w) \<and> set (map fst (connections (fst nd))) \<subseteq> uuid4 w ` {..<snd nd})"

text \<open>No node of the network is anchored on the ground object.\<close>

definition no_node_on :: "world \<Rightarrow> tgo_ref \<Rightarrow> IadsNetwork \<Rightarrow> bool" where
  "no_node_on w t s = list_all (\<lambda>cn. node_tgo w cn \<noteq> t) (nodes s)"

text \<open>
  The node created for the primary group \<open>p\<close> followed in its ground object by the
  groups \<open>later\<close>, when \<open>d\<close> ids have been drawn.
\<close>

definition new_node :: "world \<Rightarrow> group_ref \<Rightarrow> group_ref list \<Rightarrow> nat \<Rightarrow> IadsNetworkNode" where
  "new_node w p later d =
     \<lparr>group = p,
      connections =
        (let pds = filter (point_defense_candidate w) later
         in zip (map (uuid4 w) [d ..< d + length pds]) pds)\<rparr>"

text \<open>
  The groups of a ground object a connection is made to, the test of the first range
  resolution (\<open>\<le>\<close>) and the test of the update of a comms or power object (\<open><\<close>).
\<close>

definition participating_groups :: "world \<Rightarrow> tgo_ref \<Rightarrow> group_ref list" where
  "participating_groups w t =
     filter (\<lambda>g. is_iads_group (grps w g) \<and> participate w (iads_role (grps w g)))
       (groups (tgos w t))"

definition links_at_init :: "world \<Rightarrow> IadsNetworkNode \<Rightarrow> tgo_ref \<Rightarrow> bool" where
  "links_at_init w node nearby_go =
     (is_comms_or_power w (for_category w (category (tgos w nearby_go)))
      \<and> nearby_go \<noteq> node_tgo w node
      \<and> IadsNetwork_is_friendly w node nearby_go
      \<and> distance_to_point w (position (tgos w nearby_go)) (position (tgos w (node_tgo w node)))
          \<le> connection_range w (for_category w (category (tgos w nearby_go))))"

definition links_at_update :: "world \<Rightarrow> IadsNetworkNode \<Rightarrow> tgo_ref \<Rightarrow> bool" where
  "links_at_update w node tgo =
     (IadsNetwork_is_friendly w node tgo
      \<and> distance_to_point w (position (tgos w (node_tgo w node))) (position (tgos w tgo))
          < connection_range w (for_category w (category (tgos w tgo))))"

text \<open>
  Node \<open>n'\<close> is node \<open>n\<close> with new connections, to the groups \<open>gs\<close> in this order,
  after the ones it had.
\<close>

definition gained :: "IadsNetworkNode \<Rightarrow> IadsNetworkNode \<Rightarrow> group_ref list \<Rightarrow> bool" where
  "gained n n' gs =
     (group n' = group n
      \<and> take (length (connections n)) (connections n') = connections n
      \<and> map snd (drop (length (connections n)) (connections n')) = gs)"

text \<open>No id is drawn twice and the ids in the network were drawn before.\<close>

definition ids_fresh :: "world \<Rightarrow> IadsNetwork \<Rightarrow> bool" where
  "ids_fresh w s =
     (inj (uuid4 w)
      \<and> list_all (\<lambda>n. set (map fst (connections n)) \<subseteq> uuid4 w ` {..<draws s}) (nodes s))"

text \<open>
  The connections of a node to groups of a ground object; the node after the update of
  that ground object took away the connections to the other side; and the events this
  emits for the node.
\<close>

definition connections_to ::
  "world \<Rightarrow> tgo_ref \<Rightarrow> IadsNetworkNode \<Rightarrow> (UUID \<times> group_ref) list" where
  "connections_to w tgo node =
     filter (\<lambda>c. ground_object (grps w (snd c)) = tgo) (connections node)"

definition purge :: "world \<Rightarrow> tgo_ref \<Rightarrow> IadsNetworkNode \<Rightarrow> IadsNetworkNode" where
  "purge w tgo node =
     (if IadsNetwork_is_friendly w node tgo then node
      else node\<lparr>connections :=
             filter (\<lambda>c. ground_object (grps w (snd c)) \<noteq> tgo) (connections node)\<rparr>)"

definition node_events :: "world \<Rightarrow> tgo_ref \<Rightarrow> IadsNetworkNode \<Rightarrow> event list" where
  "node_events w tgo node =
     map (\<lambda>c. if IadsNetwork_is_friendly w node tgo then UpdateIadsNode (group node)
              else DeleteIadsConnection (fst c))
       (connections_to w tgo node)"

text \<open>No connection id occurs twice in the network.\<close>

definition ids_distinct :: "IadsNetwork \<Rightarrow> bool" where
  "ids_distinct s = distinct (concat (map (\<lambda>n. map fst (connections n)) (nodes s)))"

text \<open>The ids of the connection-deleted events, in order.\<close>

fun deleted_ids :: "event list \<Rightarrow> UUID list" where
  "deleted_ids [] = []"
| "deleted_ids (DeleteIadsConnection k # es) = k # deleted_ids es"
| "deleted_ids (UpdateIadsNode g # es) = deleted_ids es"

text \<open>No two nodes of the network are anchored on the same ground object.\<close>

definition at_most_one_node :: "world \<Rightarrow> IadsNetwork \<Rightarrow> bool" where
  "at_most_one_node w s = distinct (map (node_tgo w) (nodes s))"

text \<open>
  The ground objects the nodes are anchored on, in the order of the nodes; a ground
  object with a group that can be a primary group; networks with the same nodes up to
  their connections; and a network that grew out of another by new nodes anchored on
  ground objects of \<open>T\<close>.
\<close>

definition anchors :: "world \<Rightarrow> IadsNetwork \<Rightarrow> tgo_ref list" where
  "anchors w s = map (node_tgo w) (nodes s)"

definition has_candidate :: "world \<Rightarrow> tgo_ref \<Rightarrow> bool" where
  "has_candidate w t = list_ex (primary_candidate w) (groups (tgos w t))"

definition same_shape :: "IadsNetwork \<Rightarrow> IadsNetwork \<Rightarrow> bool" where
  "same_shape s s' =
     (map group (nodes s') = map group (nodes s)
      \<and> ground_objects s' = ground_objects s
      \<and> advanced_iads s' = advanced_iads s)"

definition grows :: "world \<Rightarrow> tgo_ref set \<Rightarrow> IadsNetwork \<Rightarrow> IadsNetwork \<Rightarrow> bool" where
  "grows w T s s' =
     (ground_objects s' = ground_objects s
      \<and> advanced_iads s' = advanced_iads s
      \<and> (at_most_one_node w s \<longrightarrow> at_most_one_node w s')
      \<and> set (anchors w s) \<subseteq> set (anchors w s')
      \<and> set (anchors w s') \<subseteq> set (anchors w s) \<union> T)"

text \<open>
  The ground objects \<open>initialize_network_from_range\<close> derives a node for: IADS ground
  objects, naval ground objects and command-centre buildings.
\<close>

definition range_kind :: "world \<Rightarrow> tgo_ref \<Rightarrow> bool" where
  "range_kind w t =
     (is_IadsGroundObject (tgos w t) \<or> is_NavalGroundObject (tgos w t)
      \<or> (is_IadsBuildingGroundObject (tgos w t)
          \<and> for_category w (category (tgos w t)) = COMMAND_CENTER))"

text \<open>
  The registry entries \<open>initialize_network\<close> derives a node for, by the mode of the
  network: the keys of the configuration, the kinds of the range mode, or the IADS
  ground objects of the basic mode; and the nodes anchored on a ground object.
\<close>

definition derives_node :: "world \<Rightarrow> IadsNetwork \<Rightarrow> string \<times> tgo_ref \<Rightarrow> bool" where
  "derives_node w s e =
     (if advanced_iads s then
        (if iads_config s \<noteq> [] then fst e \<in> set (map fst (iads_config s))
         else range_kind w (snd e))
      else is_IadsGroundObject (tgos w (snd e)))"

definition nodes_on :: "world \<Rightarrow> IadsNetwork \<Rightarrow> tgo_ref \<Rightarrow> IadsNetworkNode list" where
  "nodes_on w s t = filter (\<lambda>cn. node_tgo w cn = t) (nodes s)"

text \<open>
  A node of the basic mode: its primary group is the first candidate of a registered
  IADS ground object, and its connections go to the later point-defence groups with a
  living unit of that ground object, in order.
\<close>

definition basic_node ::
  "world \<Rightarrow> (string \<times> tgo_ref) list \<Rightarrow> IadsNetworkNode \<Rightarrow> bool" where
  "basic_node w reg n =
     list_ex
       (\<lambda>e. is_IadsGroundObject (tgos w (snd e))
          \<and> (case dropWhile (\<lambda>g. \<not> primary_candidate w g) (groups (tgos w (snd e))) of
                [] \<Rightarrow> False
              | p # later \<Rightarrow>
                  group n = p
                  \<and> map snd (connections n) = filter (point_defense_candidate w) later))
       reg"


section \<open>An example theatre\<close>

text \<open>
  Three friendly ground objects on a line: A at 0 (an early-warning radar and a point
  defence), B at 10 (a power source, a building; its side is the parameter \<open>b_blue\<close>), C at
  20 (a SAM and a dead point defence); every other reference is D, a site with no groups,
  and every other group reference an early-warning radar group with no units. The
  connection range of comms and power is the parameter \<open>rng\<close>.
\<close>

definition ex_unit :: "string \<Rightarrow> bool \<Rightarrow> bool \<Rightarrow> TheaterUnit" where
  "ex_unit nm al st = \<lparr>unit_name = nm, alive = al, is_static = st, skynet_properties = None\<rparr>"

definition ex_group :: "tgo_ref \<Rightarrow> IadsRole \<Rightarrow> string \<Rightarrow> TheaterUnit list \<Rightarrow> TheaterGroup" where
  "ex_group t r nm us =
     \<lparr>ground_object = t, is_iads_group = True, iads_role = r, group_name = nm, name = nm,
      units = us\<rparr>"

definition ex_tgo ::
  "string \<Rightarrow> string \<Rightarrow> real \<Rightarrow> bool \<Rightarrow> group_ref list \<Rightarrow> bool \<Rightarrow> TheaterGroundObject" where
  "ex_tgo nm cat x blue gs iads =
     \<lparr>original_name = nm, category = cat, position = (x, 0), is_friendly = (\<lambda>p. p = blue),
      is_dead = False, groups = gs, is_IadsGroundObject = iads, is_NavalGroundObject = False,
      is_IadsBuildingGroundObject = (\<not> iads)\<rparr>"

definition ex_grps :: "group_ref \<Rightarrow> TheaterGroup" where
  "ex_grps g =
     (if g = 0 then ex_group 0 EWR ''A-ewr'' [ex_unit ''A-ewr-1'' True False]
      else if g = 1 then ex_group 0 POINT_DEFENSE ''A-pd'' [ex_unit ''A-pd-1'' True False]
      else if g = 2 then ex_group 1 POWER_SOURCE ''B-power'' [ex_unit ''B-power-1'' True True]
      else if g = 3 then ex_group 2 (OtherRole ''Sam'') ''C-sam'' [ex_unit ''C-sam-1'' True False]
      else if g = 4 then ex_group 2 POINT_DEFENSE ''C-pd'' [ex_unit ''C-pd-1'' False False]
      else ex_group 3 EWR ''D-ewr'' [])"

definition ex_tgos :: "bool \<Rightarrow> tgo_ref \<Rightarrow> TheaterGroundObject" where
  "ex_tgos b_blue t =
     (if t = 0 then ex_tgo ''A'' ''ewr'' 0 True [0, 1] True
      else if t = 1 then ex_tgo ''B'' ''power'' 10 b_blue [2] False
      else if t = 2 then ex_tgo ''C'' ''aa'' 20 True [3, 4] True
      else ex_tgo ''D'' ''ewr'' 100 True [] True)"

definition ex_world :: "bool \<Rightarrow> real \<Rightarrow> world" where
  "ex_world b_blue rng =
     \<lparr>tgos = ex_tgos b_blue, grps = ex_grps,
      participate = (\<lambda>r. r \<noteq> POINT_DEFENSE \<and> r \<noteq> OtherRole ''NoBehavior''),
      is_comms_or_power = (\<lambda>r. r = CONNECTION_NODE \<or> r = POWER_SOURCE),
      connection_range = (\<lambda>r. if r = POWER_SOURCE \<or> r = CONNECTION_NODE then rng else 0),
      for_category = (\<lambda>c. if c = ''power'' then POWER_SOURCE
                           else if c = ''comms'' then CONNECTION_NODE
                           else if c = ''commandcenter'' then COMMAND_CENTER
                           else OtherRole ''NoBehavior''),
      distance_to_point = (\<lambda>p q. \<bar>fst p - fst q\<bar> + \<bar>snd p - snd q\<bar>),
      uuid4 = (\<lambda>n. n)\<rparr>"

text \<open>A network before \<open>initialize_network\<close>, and the one range mode builds from A, B, C.\<close>

definition ex_net :: "bool \<Rightarrow> (string \<times> string list) list \<Rightarrow> IadsNetwork" where
  "ex_net adv cfg =
     \<lparr>advanced_iads = adv, ground_objects = [], nodes = [], iads_config = cfg, draws = 0\<rparr>"

definition ex_built :: IadsNetwork where
  "ex_built =
     \<lparr>advanced_iads = True, ground_objects = [(''A'', 0), (''B'', 1), (''C'', 2)],
      nodes = [\<lparr>group = 0, connections = [(0, 1), (1, 2)]\<rparr>,
               \<lparr>group = 3, connections = [(2, 2)]\<rparr>],
      iads_config = [], draws = 3\<rparr>"

text \<open>
  The network with the nodes of A and C before any link to B, and the theatre with B
  destroyed.
\<close>

definition ex_unlinked :: IadsNetwork where
  "ex_unlinked =
     \<lparr>advanced_iads = True, ground_objects = [(''A'', 0), (''B'', 1), (''C'', 2)],
      nodes = [\<lparr>group = 0, connections = [(0, 1)]\<rparr>, \<lparr>group = 3, connections = []\<rparr>],
      iads_config = [], draws = 1\<rparr>"

definition ex_world_b_dead :: "real \<Rightarrow> world" where
  "ex_world_b_dead rng =
     (ex_world True rng)\<lparr>tgos := (ex_tgos True)(1 := (ex_tgos True 1)\<lparr>is_dead := True\<rparr>)\<rparr>"

text \<open>The theatre with the radar of A destroyed.\<close>

definition ex_world_a_dead :: world where
  "ex_world_a_dead =
     (ex_world True 20)\<lparr>grps :=
        ex_grps(0 := ex_group 0 EWR ''A-ewr'' [ex_unit ''A-ewr-1'' False False])\<rparr>"

text \<open>
  The network that the basic mode builds from A, B, C when the configuration names only
  an unknown ground object.
\<close>

definition ex_fallback :: IadsNetwork where
  "ex_fallback =
     \<lparr>advanced_iads = True, ground_objects = [(''A'', 0), (''B'', 1), (''C'', 2)],
      nodes = [\<lparr>group = 0, connections = [(0, 1)]\<rparr>, \<lparr>group = 3, connections = []\<rparr>],
      iads_config = [(''X'', [])], draws = 1\<rparr>"

section \<open>Unfolding rules and lemmas on association lists\<close>

lemmas ex_defs =
  ex_world_def ex_tgos_def ex_grps_def ex_tgo_def ex_group_def ex_unit_def ex_net_def
  ex_built_def ex_unlinked_def ex_world_b_dead_def ex_world_a_dead_def ex_fallback_def

lemmas net_defs =
  initialize_network_def initialize_advanced_def register_ground_objects_def
  initialize_network_from_range_def initialize_network_from_config_def
  initialize_basic_iads_def node_for_tgo_def node_for_group_def on_node_def node_tgo_def
  make_advanced_connections_by_range_def add_connection_for_group_def
  add_connection_for_tgo_def alive_units_def IadsNetwork_is_friendly_def
  add_connections_from_config_def defaultdict_getitem_def update_tgo_def update_network_def
  update_iads_comms_and_power_def del_connection_def

lemma update_fresh: "k \<notin> set (map fst al) \<Longrightarrow> AList.update k v al = al @ [(k, v)]"
  by (induction al) auto

lemma delete_append_fresh: "k \<notin> set (map fst al) \<Longrightarrow> AList.delete k (al @ [(k, v)]) = al"
  by (induction al) (auto simp: AList.delete_eq)

section \<open>Identity names\<close>

text \<open>
  C10: the identity-name derivation reads the first unit of the group: for the four
  name-bearing roles a group with no units gives an out-of-bounds access (not the
  domain-specific error), and for no other input; building the snapshot node of a group
  reads its first unit in every case, so it gives the out-of-bounds access exactly for
  the groups with no units.
\<close>

theorem dcs_name_index_error:
  "(dcs_name_for_group g = Inl IndexError \<longleftrightarrow>
      iads_role g \<in> set [EWR, COMMAND_CENTER, CONNECTION_NODE, POWER_SOURCE] \<and> units g = [])
   \<and> (from_group w g = Inl IndexError \<longleftrightarrow> units g = [])"
  by (auto simp: dcs_name_for_group_def from_group_def find_None_iff
           split: option.splits list.splits sum.splits)

theorem dcs_name_index_error_witness:
  "dcs_name_for_group (ex_grps 5) = Inl IndexError
   \<and> from_group (ex_world True 20) (ex_grps 5) = Inl IndexError
   \<and> from_group (ex_world True 20) (ex_grps 3) \<noteq> Inl IndexError"
  using dcs_name_index_error [of "ex_grps 5" "ex_world True 20"]
    dcs_name_index_error [of "ex_grps 3" "ex_world True 20"]
  by (simp add: ex_defs)

text \<open>
  C7 at a group of a name-bearing role with no units: no unit is alive and there is no
  static first unit, and the result is the out-of-bounds access, not the
  \<open>IadsNetworkException\<close>.
\<close>

theorem dcs_name_for_group_no_units:
  "dcs_name_for_group
     \<lparr>ground_object = 3, is_iads_group = True, iads_role = EWR, group_name = ''D-ewr'',
      name = ''D-ewr'', units = []\<rparr> = Inl IndexError"
  by (simp add: dcs_name_for_group_def)

text \<open>On a group with a unit the derivation is the one C7 describes.\<close>

lemma dcs_name_for_group_units:
  assumes "units g = u0 # us"
  shows "dcs_name_for_group g =
     (if iads_role g \<in> set [EWR, COMMAND_CENTER, CONNECTION_NODE, POWER_SOURCE] then
        (case find alive (units g) of
           Some u \<Rightarrow> Inr (unit_name u)
         | None \<Rightarrow>
             if is_static u0 then Inr (unit_name u0)
             else Inl (IadsNetworkException (name g @ '' has no skynet usable units'')))
      else Inr (group_name g))"
  using assms by (auto simp: dcs_name_for_group_def split: option.splits)

section \<open>Adding and deleting a connection\<close>

text \<open>
  C9: adding a connection for a group to a node and then deleting the new entry by its
  id gives back the connections the node had, when the id drawn is not already a key of
  the node.
\<close>

theorem add_then_delete:
  assumes "uuid4 w d \<notin> set (map fst (connections node))"
  shows "del_connection (uuid4 w d)
           (connections (fst (add_connection_for_group w g (node, d))))
         = Inr (connections node)"
  using assms
  by (simp add: add_connection_for_group_def del_connection_def update_fresh
        delete_append_fresh)

theorem add_then_delete_witness:
  "del_connection 1
     (connections (fst (add_connection_for_group (ex_world True 20) 2
        (\<lparr>group = 0, connections = [(0, 1)]\<rparr>, 1))))
   = Inr [(0, 1)]"
  using add_then_delete [of "ex_world True 20" 1 "\<lparr>group = 0, connections = [(0, 1)]\<rparr>" 2]
  by (simp add: ex_defs)

section \<open>Projection\<close>

lemma find_alive_Some: "list_ex alive us \<Longrightarrow> \<exists>u. find alive us = Some u"
  by (induction us) auto

lemma dcs_name_alive:
  "list_ex alive (units g) \<Longrightarrow> dcs_name_for_group g = Inr (identity_name g)"
  by (auto simp: dcs_name_for_group_def identity_name_def dest: find_alive_Some)

lemma skynet_connections_eq:
  "player sn = is_friendly (tgos w (node_tgo w node)) True \<Longrightarrow>
   skynet_connections w culling cs sn =
     Inr (sn\<lparr>sk_connections := (\<lambda>role. sk_connections sn role @
            map (\<lambda>c. identity_name (grps w c))
              (filter (\<lambda>c. connection_included w culling node c \<and> iads_role (grps w c) = role)
                 cs))\<rparr>)"
proof (induction cs arbitrary: sn)
  case Nil
  then show ?case by simp
next
  case (Cons c cs)
  show ?case
  proof (cases "connection_included w culling node c")
    case True
    then have al: "list_ex alive (units (grps w c))"
      by (simp add: connection_included_def)
    let ?sn = "sn\<lparr>sk_connections := (sk_connections sn)
                 (iads_role (grps w c) := sk_connections sn (iads_role (grps w c))
                    @ [identity_name (grps w c)])\<rparr>"
    have p: "player ?sn = is_friendly (tgos w (node_tgo w node)) True"
      using Cons.prems by simp
    have step: "skynet_connections w culling (c # cs) sn = skynet_connections w culling cs ?sn"
      using True Cons.prems by (simp add: connection_included_def dcs_name_alive [OF al] Let_def)
    show ?thesis
      unfolding step Cons.IH [OF p] using True
      by (auto simp: fun_eq_iff)
  next
    case False
    then have step: "skynet_connections w culling (c # cs) sn = skynet_connections w culling cs sn"
      using Cons.prems by (auto simp: connection_included_def Let_def)
    show ?thesis
      unfolding step Cons.IH [OF Cons.prems] using False by simp
  qed
qed

lemma from_group_alive:
  "list_ex alive (units g) \<Longrightarrow>
   from_group w g =
     Inr \<lparr>dcs_name = identity_name g,
          player = is_friendly (tgos w (ground_object g)) True,
          sk_iads_role = iads_role g,
          properties = (case units g of [] \<Rightarrow> []
                        | u0 # _ \<Rightarrow> (case skynet_properties u0 of None \<Rightarrow> [] | Some p \<Rightarrow> p)),
          sk_connections = (\<lambda>_. [])\<rparr>"
  by (cases "units g") (auto simp: from_group_def dcs_name_alive)

lemma skynet_nodes_loop_eq:
  "skynet_nodes_loop w culling ns =
     Inr (map (project_node w culling) (filter (node_included w culling) ns))"
proof (induction ns)
  case Nil
  then show ?case by simp
next
  case (Cons node ns)
  show ?case
  proof (cases "node_included w culling node")
    case True
    then have al: "list_ex alive (units (grps w (group node)))"
      and nc: "\<not> culling (node_tgo w node)"
      by (simp_all add: node_included_def)
    show ?thesis
      using True nc al Cons.IH
      by (simp add: from_group_alive [OF al] skynet_connections_eq [where node = node]
            node_tgo_def project_node_def)
  next
    case False
    then show ?thesis using Cons.IH by (auto simp: node_included_def)
  qed
qed

text \<open>
  C8: the projection returns, in the order of the nodes, the snapshot of every node that
  is not culled and whose primary group has a living unit, and of no other node; the
  connections of a snapshot are, under their role, the names of the connections whose
  group has a living unit, whose ground object is friendly to the node's side and is not
  culled, and of no other; a node is projected whatever becomes of its connections.
\<close>

theorem skynet_nodes_project:
  "skynet_nodes w culling s = Inr (project w culling s)"
  by (simp add: skynet_nodes_def project_def skynet_nodes_loop_eq)

theorem skynet_nodes_project_witness:
  "skynet_nodes (ex_world False 20) (\<lambda>t. t = 2) ex_built
     = Inr (project (ex_world False 20) (\<lambda>t. t = 2) ex_built)
   \<and> map dcs_name (project (ex_world False 20) (\<lambda>t. t = 2) ex_built) = [''A-ewr-1'']
   \<and> map (\<lambda>n. sk_connections n POWER_SOURCE)
       (project (ex_world False 20) (\<lambda>t. t = 2) ex_built) = [[]]
   \<and> map (\<lambda>n. sk_connections n POINT_DEFENSE)
       (project (ex_world False 20) (\<lambda>t. t = 2) ex_built) = [[''A-pd'']]"
  using skynet_nodes_project [of "ex_world False 20" "\<lambda>t. t = 2" ex_built]
  by (simp add: project_def project_node_def node_included_def connection_included_def
        identity_name_def node_tgo_def ex_defs)

section \<open>Deriving the node of a ground object\<close>

lemma index_where_None: "index_where P xs = None \<longleftrightarrow> (\<forall>x \<in> set xs. \<not> P x)"
  by (induction xs) auto

lemma index_where_Some:
  "index_where P xs = Some i \<Longrightarrow> i < length xs \<and> P (xs ! i) \<and> (\<forall>j < i. \<not> P (xs ! j))"
proof (induction xs arbitrary: i)
  case Nil
  then show ?case by simp
next
  case (Cons x xs)
  show ?case
  proof (cases "P x")
    case True
    with Cons.prems show ?thesis by simp
  next
    case False
    with Cons.prems obtain k where k: "index_where P xs = Some k" "i = Suc k"
      by auto
    from Cons.IH [OF k(1)] False k(2) show ?thesis
      by (auto simp: less_Suc_eq_0_disj)
  qed
qed

lemma append_connections_Nil [simp]: "append_connections w [] nd = nd"
  by (simp add: append_connections_def)

lemma append_connections_append:
  "append_connections w gs2 (append_connections w gs1 nd) = append_connections w (gs1 @ gs2) nd"
proof -
  have "[snd nd..<snd nd + (length gs1 + length gs2)]
        = [snd nd..<snd nd + length gs1] @ [snd nd + length gs1..<snd nd + length gs1 + length gs2]"
    by (metis add.assoc le_add1 upt_add_eq_append)
  then show ?thesis
    by (simp add: append_connections_def zip_append add.assoc)
qed

lemma add_connection_for_group_fresh:
  assumes "fresh_node w nd"
  shows "add_connection_for_group w g nd = append_connections w [g] nd"
proof -
  have "uuid4 w (snd nd) \<notin> set (map fst (connections (fst nd)))"
  proof
    assume "uuid4 w (snd nd) \<in> set (map fst (connections (fst nd)))"
    with assms obtain j where "j < snd nd" "uuid4 w (snd nd) = uuid4 w j"
      by (auto simp: fresh_node_def)
    with assms show False by (auto simp: fresh_node_def inj_def)
  qed
  then show ?thesis
    by (simp add: add_connection_for_group_def append_connections_def update_fresh)
qed

lemma fresh_node_append:
  assumes "fresh_node w nd"
  shows "fresh_node w (append_connections w gs nd)"
proof -
  have "set (map fst (zip (map (uuid4 w) [snd nd ..< snd nd + length gs]) gs))
        \<subseteq> uuid4 w ` {..<snd nd + length gs}"
    by (auto dest!: set_zip_leftD)
  moreover have "uuid4 w ` {..<snd nd} \<subseteq> uuid4 w ` {..<snd nd + length gs}"
    by auto
  ultimately show ?thesis
    using assms by (auto simp: fresh_node_def append_connections_def)
qed

lemma group_append_connections [simp]:
  "group (fst (append_connections w gs nd)) = group (fst nd)"
  by (simp add: append_connections_def)

lemma snd_append_connections [simp]:
  "snd (append_connections w gs nd) = snd nd + length gs"
  by (simp add: append_connections_def)

lemma add_connection_for_groups_fresh:
  assumes "fresh_node w nd"
  shows "add_connection_for_groups w gs nd =
     append_connections w
       (filter (\<lambda>g. is_iads_group (grps w g) \<and> participate w (iads_role (grps w g))) gs) nd"
  using assms
proof (induction gs arbitrary: nd)
  case Nil
  then show ?case by simp
next
  case (Cons g gs)
  show ?case
  proof (cases "is_iads_group (grps w g) \<and> participate w (iads_role (grps w g))")
    case True
    have f: "fresh_node w (append_connections w [g] nd)"
      by (rule fresh_node_append [OF Cons.prems])
    show ?thesis
      using True
      by (simp add: add_connection_for_group_fresh [OF Cons.prems] Cons.IH [OF f]
            append_connections_append)
  next
    case False
    then show ?thesis using Cons.IH [OF Cons.prems] by auto
  qed
qed

lemma on_node_id: "on_node i (\<lambda>nd. nd) s = s"
  by (simp add: on_node_def)

lemma on_node_comp:
  assumes "i < length (nodes s)"
  shows "on_node i f (on_node i g s) = on_node i (\<lambda>nd. f (g nd)) s"
  using assms by (simp add: on_node_def Let_def)

lemma node_for_tgo_groups_Some:
  assumes "i < length (nodes s)" and "fresh_node w (nodes s ! i, draws s)"
  shows "node_for_tgo_groups w gs (Some i) s =
           (on_node i (append_connections w (filter (point_defense_candidate w) gs)) s, Some i)"
  using assms
proof (induction gs arbitrary: s)
  case Nil
  then show ?case by (simp add: on_node_def)
next
  case (Cons g gs)
  show ?case
  proof (cases "point_defense_candidate w g")
    case True
    let ?s = "on_node i (append_connections w [g]) s"
    have add: "on_node i (add_connection_for_group w g) s = ?s"
      using add_connection_for_group_fresh [OF Cons.prems(2)] by (simp add: on_node_def)
    have len: "i < length (nodes ?s)"
      using Cons.prems(1) by (simp add: on_node_def Let_def)
    have fr: "fresh_node w (nodes ?s ! i, draws ?s)"
      using fresh_node_append [OF Cons.prems(2), of "[g]"] Cons.prems(1)
      by (simp add: on_node_def Let_def fresh_node_def append_connections_def)
    have "node_for_tgo_groups w (g # gs) (Some i) s = node_for_tgo_groups w gs (Some i) ?s"
      using True add by (simp add: point_defense_candidate_def)
    also have "\<dots> = (on_node i (append_connections w (filter (point_defense_candidate w) gs)) ?s,
                     Some i)"
      by (rule Cons.IH [OF len fr])
    finally show ?thesis
      using True Cons.prems(1)
      by (simp add: on_node_comp append_connections_append)
  next
    case False
    then have "node_for_tgo_groups w (g # gs) (Some i) s = node_for_tgo_groups w gs (Some i) s"
      by (auto simp: point_defense_candidate_def)
    then show ?thesis
      using False Cons.IH [OF Cons.prems] by simp
  qed
qed

lemma node_for_group_new:
  assumes "\<forall>cn \<in> set (nodes s). group cn \<noteq> g"
  shows "node_for_group g s =
           (s\<lparr>nodes := nodes s @ [\<lparr>group = g, connections = []\<rparr>]\<rparr>, length (nodes s))"
  using assms by (simp add: node_for_group_def index_where_None [THEN iffD2])

lemma node_for_tgo_groups_None:
  assumes "\<forall>g \<in> set gs. \<forall>cn \<in> set (nodes s). group cn \<noteq> g"
  shows "node_for_tgo_groups w gs None s =
     (case dropWhile (\<lambda>g. \<not> primary_candidate w g) gs of
        [] \<Rightarrow> (s, None)
      | p # later \<Rightarrow>
          node_for_tgo_groups w later (Some (length (nodes s)))
            (s\<lparr>nodes := nodes s @ [\<lparr>group = p, connections = []\<rparr>]\<rparr>))"
  using assms
proof (induction gs)
  case Nil
  then show ?case by simp
next
  case (Cons g gs)
  show ?case
  proof (cases "primary_candidate w g")
    case True
    have "\<forall>cn \<in> set (nodes s). group cn \<noteq> g"
      using Cons.prems by simp
    then show ?thesis
      using True by (simp add: primary_candidate_def node_for_group_new)
  next
    case False
    then have "node_for_tgo_groups w (g # gs) None s = node_for_tgo_groups w gs None s"
      by (auto simp: primary_candidate_def)
    then show ?thesis
      using False Cons.IH Cons.prems by simp
  qed
qed

lemma node_for_tgo_create:
  assumes "no_node_on w t s" and "wf_tgo w t" and "inj (uuid4 w)"
  shows "node_for_tgo w t s =
     (case dropWhile (\<lambda>g. \<not> primary_candidate w g) (groups (tgos w t)) of
        [] \<Rightarrow> (s, None)
      | p # later \<Rightarrow>
          (s\<lparr>nodes := nodes s @ [new_node w p later (draws s)],
             draws := draws s + length (filter (point_defense_candidate w) later)\<rparr>,
           Some (length (nodes s))))"
proof -
  have none: "index_where (\<lambda>cn. node_tgo w cn = t) (nodes s) = None"
    using assms(1) by (simp add: no_node_on_def index_where_None list_all_iff)
  have grp: "\<forall>g \<in> set (groups (tgos w t)). \<forall>cn \<in> set (nodes s). group cn \<noteq> g"
    using assms(1,2) by (auto simp: no_node_on_def wf_tgo_def list_all_iff node_tgo_def)
  show ?thesis
  proof (cases "dropWhile (\<lambda>g. \<not> primary_candidate w g) (groups (tgos w t))")
    case Nil
    show ?thesis
      by (simp add: node_for_tgo_def node_for_tgo_groups_None [OF grp] none Nil)
  next
    case (Cons p later)
    let ?s = "s\<lparr>nodes := nodes s @ [\<lparr>group = p, connections = []\<rparr>]\<rparr>"
    have len: "length (nodes s) < length (nodes ?s)" by simp
    have fr: "fresh_node w (nodes ?s ! length (nodes s), draws ?s)"
      using assms(3) by (simp add: fresh_node_def)
    show ?thesis
      by (simp add: node_for_tgo_def node_for_tgo_groups_None [OF grp] none Cons
            node_for_tgo_groups_Some [OF len fr] on_node_def append_connections_def
            new_node_def Let_def)
  qed
qed

text \<open>
  C6, amended: when no node is anchored on a ground object, \<open>node_for_tgo\<close> scans its
  groups in order. The first IADS group with a living unit and a participating role
  becomes the primary group of a new node, appended to the nodes; every later IADS group
  with a living unit and the point-defence role is attached to it as a connection, in
  order, under the ids drawn; with no such first group the result is no node and the
  network is unchanged. (The groups of the ground object name it as their owner, and no
  id is drawn twice.)
\<close>

theorem node_for_tgo_new:
  assumes "no_node_on w t s" and "wf_tgo w t" and "inj (uuid4 w)"
  shows "node_for_tgo w t s =
     (case dropWhile (\<lambda>g. \<not> primary_candidate w g) (groups (tgos w t)) of
        [] \<Rightarrow> (s, None)
      | p # later \<Rightarrow>
          (s\<lparr>nodes := nodes s @ [new_node w p later (draws s)],
             draws := draws s + length (filter (point_defense_candidate w) later)\<rparr>,
           Some (length (nodes s))))"
  using assms by (rule node_for_tgo_create)

theorem node_for_tgo_new_witness:
  "no_node_on (ex_world True 20) 0 (ex_net False [])
   \<and> wf_tgo (ex_world True 20) 0
   \<and> inj (uuid4 (ex_world True 20))
   \<and> node_for_tgo (ex_world True 20) 0 (ex_net False []) =
       (ex_net False []\<lparr>nodes := [\<lparr>group = 0, connections = [(0, 1)]\<rparr>], draws := 1\<rparr>, Some 0)
   \<and> node_for_tgo (ex_world True 20) 3 (ex_net False []) = (ex_net False [], None)"
proof -
  have h1: "no_node_on (ex_world True 20) 0 (ex_net False [])"
    and h1': "no_node_on (ex_world True 20) 3 (ex_net False [])"
    by (simp_all add: no_node_on_def ex_defs)
  have h2: "wf_tgo (ex_world True 20) 0" and h2': "wf_tgo (ex_world True 20) 3"
    by (simp_all add: wf_tgo_def ex_defs)
  have h3: "inj (uuid4 (ex_world True 20))"
    by (simp add: ex_defs)
  show ?thesis
    using h1 h2 h3 node_for_tgo_new [OF h1 h2 h3] node_for_tgo_new [OF h1' h2' h3]
    by (simp add: new_node_def primary_candidate_def point_defense_candidate_def
          alive_units_def ex_defs)
qed

text \<open>
  C6 as stated fails at C: its SAM group is the primary group, and its later
  point-defence group, which has no living unit, is not attached.
\<close>

theorem node_for_tgo_dead_point_defense:
  "groups (tgos (ex_world True 20) 2) = [3, 4]
   \<and> primary_candidate (ex_world True 20) 3
   \<and> iads_role (grps (ex_world True 20) 4) = POINT_DEFENSE
   \<and> node_for_tgo (ex_world True 20) 2 (ex_net False []) =
       (ex_net False []\<lparr>nodes := [\<lparr>group = 3, connections = []\<rparr>]\<rparr>, Some 0)
   \<and> 4 \<notin> snd ` set (connections (nodes (fst (node_for_tgo (ex_world True 20) 2
             (ex_net False []))) ! 0))"
  by (simp add: primary_candidate_def net_defs ex_defs)

section \<open>Connections by range\<close>

lemma gained_append_connections: "gained n (fst (append_connections w gs (n, d))) gs"
  by (simp add: gained_def append_connections_def)

lemma gained_refl: "gained n n []"
  by (simp add: gained_def)

lemma add_connection_for_tgo_fresh:
  "fresh_node w nd \<Longrightarrow>
   add_connection_for_tgo w t nd = append_connections w (participating_groups w t) nd"
  by (simp add: add_connection_for_tgo_def participating_groups_def
        add_connection_for_groups_fresh)

lemma node_tgo_append_connections [simp]:
  "node_tgo w (fst (append_connections w gs nd)) = node_tgo w (fst nd)"
  by (simp add: node_tgo_def)

lemma is_friendly_append_connections [simp]:
  "IadsNetwork_is_friendly w (fst (append_connections w gs nd)) t
     = IadsNetwork_is_friendly w (fst nd) t"
  by (simp add: IadsNetwork_is_friendly_def)

lemma links_at_init_append_connections [simp]:
  "links_at_init w (fst (append_connections w gs nd)) t = links_at_init w (fst nd) t"
  by (simp add: links_at_init_def)

lemma make_advanced_connections_loop_fresh:
  assumes "fresh_node w nd"
  shows "make_advanced_connections_loop w gos nd =
     append_connections w
       (concat (map (participating_groups w) (filter (links_at_init w (fst nd)) gos))) nd"
  using assms
proof (induction gos arbitrary: nd)
  case Nil
  then show ?case by simp
next
  case (Cons go gos)
  show ?case
  proof (cases "links_at_init w (fst nd) go")
    case True
    have f: "fresh_node w (append_connections w (participating_groups w go) nd)"
      by (rule fresh_node_append [OF Cons.prems])
    have "make_advanced_connections_loop w (go # gos) nd =
          make_advanced_connections_loop w gos
            (append_connections w (participating_groups w go) nd)"
      using True by (simp add: links_at_init_def add_connection_for_tgo_fresh [OF Cons.prems])
    then show ?thesis
      using True by (simp add: Cons.IH [OF f] append_connections_append)
  next
    case False
    then have "make_advanced_connections_loop w (go # gos) nd =
               make_advanced_connections_loop w gos nd"
      by (auto simp: links_at_init_def Let_def)
    then show ?thesis
      using False by (simp add: Cons.IH [OF Cons.prems])
  qed
qed

lemma ids_fresh_node:
  "ids_fresh w s \<Longrightarrow> i < length (nodes s) \<Longrightarrow> fresh_node w (nodes s ! i, draws s)"
  by (simp add: ids_fresh_def fresh_node_def list_all_length)

lemma update_network_loop_fresh:
  assumes "inj (uuid4 w)"
    and "\<forall>n \<in> set ns. set (map fst (connections n)) \<subseteq> uuid4 w ` {..<d}"
  shows "case update_network_loop w tgo ns d of
           (ns', d', evs) \<Rightarrow>
             list_all2 (\<lambda>n n'. gained n n'
                 (if links_at_update w n tgo then participating_groups w tgo else [])) ns ns'
             \<and> d \<le> d'
             \<and> evs = map (\<lambda>n. UpdateIadsNode (group n)) (filter (\<lambda>n. links_at_update w n tgo) ns)"
  using assms(2)
proof (induction ns arbitrary: d)
  case Nil
  then show ?case by simp
next
  case (Cons n ns)
  have fn: "fresh_node w (n, d)"
    using assms(1) Cons.prems by (simp add: fresh_node_def)
  show ?case
  proof (cases "links_at_update w n tgo")
    case True
    let ?d = "d + length (participating_groups w tgo)"
    have rest: "\<forall>n \<in> set ns. set (map fst (connections n)) \<subseteq> uuid4 w ` {..<?d}"
      using Cons.prems by fastforce
    show ?thesis
      using True Cons.IH [OF rest]
      by (auto simp: links_at_update_def Let_def add_connection_for_tgo_fresh [OF fn]
            gained_append_connections append_connections_def gained_def
            split: prod.splits)
  next
    case False
    have rest: "\<forall>n \<in> set ns. set (map fst (connections n)) \<subseteq> uuid4 w ` {..<d}"
      using Cons.prems by simp
    show ?thesis
      using False Cons.IH [OF rest]
      by (auto simp: links_at_update_def Let_def gained_refl split: prod.splits)
  qed
qed

text \<open>
  C3: with ids that are not drawn twice, the first range resolution of a node adds
  connections to the participating groups of exactly the registered ground objects that
  are comms or power, are not the node's own, are on the node's side and lie at a
  distance \<open>\<le>\<close> their role's range; the update of a living comms or power object gives
  every node new connections to its participating groups exactly when the node is on its
  side and at a distance \<open><\<close> the range, with one node-updated event for each such node;
  and the update of a dead object changes nothing and emits nothing.
\<close>

theorem range_policy:
  assumes "ids_fresh w s"
  shows "(i < length (nodes s) \<longrightarrow>
            make_advanced_connections_by_range w i s =
              on_node i (append_connections w
                (concat (map (participating_groups w)
                   (filter (links_at_init w (nodes s ! i)) (map snd (ground_objects s)))))) s)
       \<and> (\<not> is_dead (tgos w tgo)
            \<and> is_comms_or_power w (for_category w (category (tgos w tgo))) \<longrightarrow>
            list_all2 (\<lambda>n n'. gained n n'
                (if links_at_update w n tgo then participating_groups w tgo else []))
              (nodes s) (nodes (fst (update_network w tgo s)))
            \<and> snd (update_network w tgo s) =
                map (\<lambda>n. UpdateIadsNode (group n))
                  (filter (\<lambda>n. links_at_update w n tgo) (nodes s)))
       \<and> (is_dead (tgos w tgo) \<longrightarrow> update_network w tgo s = (s, []))"
proof (intro conjI impI)
  assume i: "i < length (nodes s)"
  show "make_advanced_connections_by_range w i s =
          on_node i (append_connections w
            (concat (map (participating_groups w)
               (filter (links_at_init w (nodes s ! i)) (map snd (ground_objects s)))))) s"
    using make_advanced_connections_loop_fresh [OF ids_fresh_node [OF assms i]]
    by (simp add: make_advanced_connections_by_range_def on_node_def)
next
  assume a: "\<not> is_dead (tgos w tgo)
             \<and> is_comms_or_power w (for_category w (category (tgos w tgo)))"
  have inj: "inj (uuid4 w)"
    and fr: "\<forall>n \<in> set (nodes s). set (map fst (connections n)) \<subseteq> uuid4 w ` {..<draws s}"
    using assms by (simp_all add: ids_fresh_def list_all_iff)
  from update_network_loop_fresh [OF inj fr, of tgo] a
  show "list_all2 (\<lambda>n n'. gained n n'
            (if links_at_update w n tgo then participating_groups w tgo else []))
          (nodes s) (nodes (fst (update_network w tgo s)))"
    by (auto simp: update_network_def split: prod.splits)
  from update_network_loop_fresh [OF inj fr, of tgo] a
  show "snd (update_network w tgo s) =
          map (\<lambda>n. UpdateIadsNode (group n)) (filter (\<lambda>n. links_at_update w n tgo) (nodes s))"
    by (auto simp: update_network_def split: prod.splits)
next
  assume "is_dead (tgos w tgo)"
  then show "update_network w tgo s = (s, [])"
    by (simp add: update_network_def)
qed

theorem range_policy_witness:
  "ids_fresh (ex_world True 10) ex_unlinked
   \<and> nodes (make_advanced_connections_by_range (ex_world True 10) 0 ex_unlinked) =
       [\<lparr>group = 0, connections = [(0, 1), (1, 2)]\<rparr>, \<lparr>group = 3, connections = []\<rparr>]
   \<and> nodes (fst (update_network (ex_world True 10) 1 ex_unlinked)) = nodes ex_unlinked
   \<and> snd (update_network (ex_world True 10) 1 ex_unlinked) = []
   \<and> snd (update_network (ex_world True 11) 1 ex_unlinked) = [UpdateIadsNode 0, UpdateIadsNode 3]
   \<and> is_dead (tgos (ex_world_b_dead 11) 1)
   \<and> update_network (ex_world_b_dead 11) 1 ex_unlinked = (ex_unlinked, [])"
proof -
  have f10: "ids_fresh (ex_world True 10) ex_unlinked"
    and f11: "ids_fresh (ex_world True 11) ex_unlinked"
    and fd: "ids_fresh (ex_world_b_dead 11) ex_unlinked"
    by (simp_all add: ids_fresh_def ex_defs)
  have dead: "is_dead (tgos (ex_world_b_dead 11) 1)"
    by (simp add: ex_defs)
  have c1: "nodes (make_advanced_connections_by_range (ex_world True 10) 0 ex_unlinked) =
       [\<lparr>group = 0, connections = [(0, 1), (1, 2)]\<rparr>, \<lparr>group = 3, connections = []\<rparr>]"
    using range_policy [OF f10, of 0 1]
    by (simp add: on_node_def append_connections_def participating_groups_def
          links_at_init_def IadsNetwork_is_friendly_def node_tgo_def ex_defs)
  have l10: "filter (\<lambda>n. links_at_update (ex_world True 10) n 1) (nodes ex_unlinked) = []"
    by (simp add: links_at_update_def IadsNetwork_is_friendly_def node_tgo_def ex_defs)
  have l11: "filter (\<lambda>n. links_at_update (ex_world True 11) n 1) (nodes ex_unlinked)
               = nodes ex_unlinked"
    by (simp add: links_at_update_def IadsNetwork_is_friendly_def node_tgo_def ex_defs)
  have nd: "\<not> is_dead (tgos (ex_world True 10) 1)
            \<and> is_comms_or_power (ex_world True 10)
                 (for_category (ex_world True 10) (category (tgos (ex_world True 10) 1)))"
    and nd': "\<not> is_dead (tgos (ex_world True 11) 1)
            \<and> is_comms_or_power (ex_world True 11)
                 (for_category (ex_world True 11) (category (tgos (ex_world True 11) 1)))"
    by (simp_all add: ex_defs)
  have c2: "snd (update_network (ex_world True 10) 1 ex_unlinked) = []"
    using range_policy [OF f10, of 0 1] nd l10 by simp
  have c3: "snd (update_network (ex_world True 11) 1 ex_unlinked)
              = [UpdateIadsNode 0, UpdateIadsNode 3]"
    using range_policy [OF f11, of 0 1] nd' l11 by (simp add: ex_defs)
  have c4: "update_network (ex_world_b_dead 11) 1 ex_unlinked = (ex_unlinked, [])"
    using range_policy [OF fd, of 0 1] dead by simp
  have c5: "nodes (fst (update_network (ex_world True 10) 1 ex_unlinked)) = nodes ex_unlinked"
    by (simp add: net_defs links_at_update_def ex_defs)
  show ?thesis
    using f10 c1 c2 c3 c4 c5 dead by simp
qed

section \<open>Update of a comms or power object\<close>

lemma scan_connections_eq:
  "scan_connections w tgo node cs =
     (let hits = filter (\<lambda>c. ground_object (grps w (snd c)) = tgo) cs in
      if IadsNetwork_is_friendly w node tgo
      then ([], map (\<lambda>c. UpdateIadsNode (group node)) hits)
      else (map fst hits, map (\<lambda>c. DeleteIadsConnection (fst c)) hits))"
  by (induction cs) (auto simp: Let_def)

lemma del_connections_eq:
  assumes "distinct (map fst c)" and "distinct ks" and "set ks \<subseteq> set (map fst c)"
  shows "del_connections ks c = Inr (filter (\<lambda>e. fst e \<notin> set ks) c)"
  using assms
proof (induction ks arbitrary: c)
  case Nil
  then show ?case by simp
next
  case (Cons k ks)
  let ?c = "AList.delete k c"
  have d: "distinct (map fst ?c)"
    using Cons.prems(1) by (simp add: AList.distinct_delete)
  have sub: "set ks \<subseteq> set (map fst ?c)"
  proof
    fix x assume x: "x \<in> set ks"
    with Cons.prems(3) obtain e where "e \<in> set c" "fst e = x" by auto
    moreover have "x \<noteq> k" using x Cons.prems(2) by auto
    ultimately show "x \<in> set (map fst ?c)"
      by (force simp: AList.delete_eq)
  qed
  have "del_connections (k # ks) c = del_connections ks ?c"
    using Cons.prems(3) by (simp add: del_connection_def)
  also have "\<dots> = Inr (filter (\<lambda>e. fst e \<notin> set ks) ?c)"
    using Cons.IH [OF d _ sub] Cons.prems(2) by simp
  also have "filter (\<lambda>e. fst e \<notin> set ks) ?c = filter (\<lambda>e. fst e \<notin> set (k # ks)) c"
    by (auto simp: AList.delete_eq intro: filter_cong)
  finally show ?case .
qed

lemma filter_keys_of_filter:
  assumes "distinct (map fst c)"
  shows "filter (\<lambda>e. fst e \<notin> set (map fst (filter P c))) c = filter (\<lambda>e. \<not> P e) c"
proof (rule filter_cong [OF refl])
  fix e assume e: "e \<in> set c"
  have inj: "inj_on fst (set c)"
    using assms by (simp add: distinct_map)
  show "(fst e \<notin> set (map fst (filter P c))) = (\<not> P e)"
  proof
    assume "fst e \<notin> set (map fst (filter P c))"
    then show "\<not> P e" using e by force
  next
    assume np: "\<not> P e"
    show "fst e \<notin> set (map fst (filter P c))"
    proof
      assume "fst e \<in> set (map fst (filter P c))"
      then obtain e' where e': "e' \<in> set c" "P e'" "fst e' = fst e" by auto
      with inj e have "e' = e" by (auto dest: inj_onD)
      with e' np show False by simp
    qed
  qed
qed

lemma update_iads_comms_and_power_loop_eq:
  assumes "\<forall>n \<in> set ns. distinct (map fst (connections n))"
  shows "update_iads_comms_and_power_loop w tgo ns =
           Inr (map (purge w tgo) ns, concat (map (node_events w tgo) ns))"
  using assms
proof (induction ns)
  case Nil
  then show ?case by simp
next
  case (Cons n ns)
  have d: "distinct (map fst (connections n))"
    using Cons.prems by simp
  let ?hits = "filter (\<lambda>c. ground_object (grps w (snd c)) = tgo) (connections n)"
  have del: "del_connections (map fst ?hits) (connections n) =
               Inr (filter (\<lambda>c. ground_object (grps w (snd c)) \<noteq> tgo) (connections n))"
  proof -
    have d1: "distinct (map fst ?hits)"
      using d by (rule distinct_map_filter)
    have d2: "set (map fst ?hits) \<subseteq> set (map fst (connections n))"
      by auto
    have "filter (\<lambda>e. fst e \<notin> set (map fst ?hits)) (connections n)
          = filter (\<lambda>c. ground_object (grps w (snd c)) \<noteq> tgo) (connections n)"
      by (rule filter_keys_of_filter [OF d])
    with del_connections_eq [OF d d1 d2] show ?thesis by simp
  qed
  show ?case
  proof (cases "IadsNetwork_is_friendly w n tgo")
    case True
    then show ?thesis
      using Cons.IH Cons.prems
      by (simp add: scan_connections_eq purge_def node_events_def connections_to_def Let_def)
  next
    case False
    then show ?thesis
      using Cons.IH Cons.prems del
      by (simp add: scan_connections_eq purge_def node_events_def connections_to_def Let_def)
  qed
qed

lemma deleted_ids_append: "deleted_ids (xs @ ys) = deleted_ids xs @ deleted_ids ys"
  by (induction xs rule: deleted_ids.induct) auto

lemma count_list_deleted_ids:
  "count_list evs (DeleteIadsConnection k) = count_list (deleted_ids evs) k"
  by (induction evs rule: deleted_ids.induct) auto

lemma count_list_distinct: "distinct xs \<Longrightarrow> x \<in> set xs \<Longrightarrow> count_list xs x = 1"
  by (induction xs) auto

lemma deleted_ids_node_events:
  "deleted_ids (node_events w tgo n) =
     (if IadsNetwork_is_friendly w n tgo then [] else map fst (connections_to w tgo n))"
proof -
  have "deleted_ids (map (\<lambda>c. UpdateIadsNode g) cs) = []" for g and cs :: "(UUID \<times> group_ref) list"
    by (induction cs) auto
  moreover have "deleted_ids (map (\<lambda>c. DeleteIadsConnection (fst c)) cs) = map fst cs"
    for cs :: "(UUID \<times> group_ref) list"
    by (induction cs) auto
  ultimately show ?thesis
    by (simp add: node_events_def)
qed

lemma deleted_ids_concat:
  "deleted_ids (concat (map f ns)) = concat (map (\<lambda>n. deleted_ids (f n)) ns)"
  by (induction ns) (auto simp: deleted_ids_append)

lemma deleted_ids_updates: "deleted_ids (map UpdateIadsNode gs) = []"
  by (induction gs) auto

lemma distinct_concat_sub:
  assumes "distinct (concat (map f ns))"
    and "\<And>n. n \<in> set ns \<Longrightarrow> set (g n) \<subseteq> set (f n) \<and> distinct (g n)"
  shows "distinct (concat (map g ns))"
  using assms
proof (induction ns)
  case Nil
  then show ?case by simp
next
  case (Cons n ns)
  have "set (g n) \<subseteq> set (f n)" "distinct (g n)"
    using Cons.prems(2) by auto
  moreover have "\<forall>m \<in> set ns. set (g m) \<subseteq> set (f m)"
    using Cons.prems(2) by auto
  moreover have "distinct (concat (map g ns))"
    using Cons.IH Cons.prems by auto
  moreover have "set (g n) \<inter> (\<Union>a\<in>set ns. set (g a)) = {}"
  proof -
    have "set (f n) \<inter> (\<Union>a\<in>set ns. set (f a)) = {}"
      using Cons.prems(1) by simp
    moreover have "(\<Union>a\<in>set ns. set (g a)) \<subseteq> (\<Union>a\<in>set ns. set (f a))"
      using \<open>\<forall>m \<in> set ns. set (g m) \<subseteq> set (f m)\<close> by blast
    ultimately show ?thesis
      using \<open>set (g n) \<subseteq> set (f n)\<close> by blast
  qed
  ultimately show ?case
    by simp
qed

lemma distinct_deleted_ids:
  assumes "distinct (concat (map (\<lambda>n. map fst (connections n)) ns))"
  shows "distinct (deleted_ids (concat (map (node_events w tgo) ns)))"
proof -
  have each: "\<And>n. n \<in> set ns \<Longrightarrow> distinct (map fst (connections n))"
    using assms by (induction ns) auto
  show ?thesis
    unfolding deleted_ids_concat
    by (rule distinct_concat_sub [OF assms])
      (auto simp: deleted_ids_node_events connections_to_def distinct_map_filter each)
qed

lemma update_network_gained:
  assumes "ids_fresh w s"
    and "\<not> is_dead (tgos w tgo) \<and> is_comms_or_power w (for_category w (category (tgos w tgo)))"
  shows "list_all2 (\<lambda>n n'. gained n n'
            (if links_at_update w n tgo then participating_groups w tgo else []))
          (nodes s) (nodes (fst (update_network w tgo s)))"
    and "snd (update_network w tgo s) =
          map (\<lambda>n. UpdateIadsNode (group n)) (filter (\<lambda>n. links_at_update w n tgo) (nodes s))"
proof -
  have inj: "inj (uuid4 w)"
    and fr: "\<forall>n \<in> set (nodes s). set (map fst (connections n)) \<subseteq> uuid4 w ` {..<draws s}"
    using assms(1) by (simp_all add: ids_fresh_def list_all_iff)
  from update_network_loop_fresh [OF inj fr, of tgo] assms(2)
  show "list_all2 (\<lambda>n n'. gained n n'
            (if links_at_update w n tgo then participating_groups w tgo else []))
          (nodes s) (nodes (fst (update_network w tgo s)))"
    by (auto simp: update_network_def split: prod.splits)
  from update_network_loop_fresh [OF inj fr, of tgo] assms(2)
  show "snd (update_network w tgo s) =
          map (\<lambda>n. UpdateIadsNode (group n)) (filter (\<lambda>n. links_at_update w n tgo) (nodes s))"
    by (auto simp: update_network_def split: prod.splits)
qed

lemma gained_Nil:
  assumes "gained n n' []"
  shows "connections n' = connections n"
proof -
  have t: "take (length (connections n)) (connections n') = connections n"
    and d: "drop (length (connections n)) (connections n') = []"
    using assms by (simp_all add: gained_def)
  have "connections n' = take (length (connections n)) (connections n')
                          @ drop (length (connections n)) (connections n')"
    by simp
  then show ?thesis
    unfolding t d by simp
qed

lemma deleted_ids_update_events:
  "deleted_ids (map (\<lambda>n. UpdateIadsNode (group n)) ns) = []"
  by (induction ns) auto

lemma gained_extends:
  assumes "gained n n' (if links_at_update w n tgo then gs else [])"
  shows "group n' = group n
         \<and> take (length (connections n)) (connections n') = connections n
         \<and> (IadsNetwork_is_friendly w n tgo \<or> connections n' = connections n)"
proof (cases "IadsNetwork_is_friendly w n tgo")
  case True
  with assms show ?thesis by (simp add: gained_def)
next
  case False
  then have "\<not> links_at_update w n tgo"
    by (simp add: links_at_update_def)
  with assms have g: "gained n n' []" by simp
  have "connections n' = connections n"
    by (rule gained_Nil [OF g])
  with g show ?thesis by (simp add: gained_def)
qed

lemma update_network_extends:
  assumes "ids_fresh w s"
  shows "list_all2 (\<lambda>n n'. group n' = group n
              \<and> take (length (connections n)) (connections n') = connections n
              \<and> (IadsNetwork_is_friendly w n tgo \<or> connections n' = connections n))
           (nodes s) (nodes (fst (update_network w tgo s)))
         \<and> deleted_ids (snd (update_network w tgo s)) = []"
proof (cases "\<not> is_dead (tgos w tgo)
              \<and> is_comms_or_power w (for_category w (category (tgos w tgo)))")
  case True
  note l = update_network_gained(1) [OF assms True]
  note e = update_network_gained(2) [OF assms True]
  have a: "list_all2 (\<lambda>n n'. group n' = group n
              \<and> take (length (connections n)) (connections n') = connections n
              \<and> (IadsNetwork_is_friendly w n tgo \<or> connections n' = connections n))
           (nodes s) (nodes (fst (update_network w tgo s)))"
    by (rule list_all2_mono [OF l]) (rule gained_extends)
  have b: "deleted_ids (snd (update_network w tgo s)) = []"
    unfolding e by (rule deleted_ids_update_events)
  from a b show ?thesis ..
next
  case False
  have u: "update_network w tgo s = (s, [])"
  proof (cases "is_dead (tgos w tgo)")
    case True
    then show ?thesis by (simp add: update_network_def)
  next
    case nd: False
    with False have "\<not> is_comms_or_power w (for_category w (category (tgos w tgo)))"
      by simp
    with nd show ?thesis by (simp add: update_network_def)
  qed
  have a: "list_all2 (\<lambda>n n'. group n' = group n
              \<and> take (length (connections n)) (connections n') = connections n
              \<and> (IadsNetwork_is_friendly w n tgo \<or> connections n' = connections n))
           (nodes s) (nodes s)"
    by (rule list_all2_refl) simp
  show ?thesis
    unfolding u using a by simp
qed

lemma distinct_concat_each:
  "distinct (concat (map f ns)) \<Longrightarrow> n \<in> set ns \<Longrightarrow> distinct (f n)"
  by (induction ns) auto

text \<open>
  C2: in advanced mode, with connection ids that are not repeated, the update of a comms
  or power ground object returns; the nodes stay the same nodes, and for every node and
  every connection it holds to a group of that ground object: when the ground object is
  on the node's side, the connection is still held and a node-updated event for the node
  is emitted; when it is on the other side, the connection's id is no key of the node
  any more and exactly one connection-deleted event carries that id.
\<close>

theorem capture_semantics:
  assumes "advanced_iads s"
    and "is_comms_or_power w (for_category w (category (tgos w tgo)))"
    and "ids_fresh w s" and "ids_distinct s"
  shows "\<exists>s' evs. update_tgo w tgo s = Inr (s', evs)
     \<and> list_all2
         (\<lambda>n n'. group n' = group n
            \<and> (\<forall>c \<in> set (connections_to w tgo n).
                  if IadsNetwork_is_friendly w n tgo
                  then c \<in> set (connections n') \<and> UpdateIadsNode (group n) \<in> set evs
                  else fst c \<notin> fst ` set (connections n')
                       \<and> count_list evs (DeleteIadsConnection (fst c)) = 1))
         (nodes s) (nodes s')"
proof -
  let ?ns = "map (purge w tgo) (nodes s)"
  let ?E = "concat (map (node_events w tgo) (nodes s))"
  let ?s1 = "s\<lparr>nodes := ?ns\<rparr>"
  have dall: "distinct (concat (map (\<lambda>n. map fst (connections n)) (nodes s)))"
    using assms(4) by (simp add: ids_distinct_def)
  have each: "\<forall>n \<in> set (nodes s). distinct (map fst (connections n))"
    using distinct_concat_each [OF dall] by simp
  have loop: "update_iads_comms_and_power_loop w tgo (nodes s) = Inr (?ns, ?E)"
    by (rule update_iads_comms_and_power_loop_eq [OF each])
  define r where "r = (if iads_config s = [] then update_network w tgo ?s1 else (?s1, []))"
  have upd: "update_tgo w tgo s = Inr (fst r, ?E @ snd r)"
  proof (cases "iads_config s = []")
    case True
    then show ?thesis
      using assms(1,2) loop
      by (simp add: update_tgo_def update_iads_comms_and_power_def r_def split_beta)
  next
    case False
    then show ?thesis
      using assms(1,2) loop
      by (simp add: update_tgo_def update_iads_comms_and_power_def r_def)
  qed
  have "set (map fst (connections (purge w tgo n))) \<subseteq> set (map fst (connections n))" for n
    by (auto simp: purge_def)
  then have fresh1: "ids_fresh w ?s1"
    using assms(3) unfolding ids_fresh_def list_all_iff by fastforce
  have ext: "list_all2 (\<lambda>n n'. group n' = group n
              \<and> take (length (connections n)) (connections n') = connections n
              \<and> (IadsNetwork_is_friendly w n tgo \<or> connections n' = connections n))
           ?ns (nodes (fst r))
         \<and> deleted_ids (snd r) = []"
    using update_network_extends [OF fresh1, of tgo]
    by (simp add: r_def list_all2_same)
  have dE: "distinct (deleted_ids (?E @ snd r))"
    using ext distinct_deleted_ids [OF dall, of w tgo] by (simp add: deleted_ids_append)
  have "list_all2
         (\<lambda>n n'. group n' = group n
            \<and> (\<forall>c \<in> set (connections_to w tgo n).
                  if IadsNetwork_is_friendly w n tgo
                  then c \<in> set (connections n') \<and> UpdateIadsNode (group n) \<in> set (?E @ snd r)
                  else fst c \<notin> fst ` set (connections n')
                       \<and> count_list (?E @ snd r) (DeleteIadsConnection (fst c)) = 1))
         (nodes s) (nodes (fst r))"
    unfolding list_all2_conv_all_nth
  proof (intro conjI allI impI ballI)
    show len: "length (nodes s) = length (nodes (fst r))"
      using ext by (auto dest: list_all2_lengthD)
    fix i assume i: "i < length (nodes s)"
    let ?n = "nodes s ! i" and ?n' = "nodes (fst r) ! i"
    have n_in: "?n \<in> set (nodes s)" using i by simp
    have e: "group ?n' = group (purge w tgo ?n)
             \<and> take (length (connections (purge w tgo ?n))) (connections ?n')
                 = connections (purge w tgo ?n)
             \<and> (IadsNetwork_is_friendly w (purge w tgo ?n) tgo
                \<or> connections ?n' = connections (purge w tgo ?n))"
      using ext i by (auto simp: list_all2_conv_all_nth)
    have fr: "IadsNetwork_is_friendly w (purge w tgo ?n) tgo = IadsNetwork_is_friendly w ?n tgo"
      by (simp add: purge_def IadsNetwork_is_friendly_def node_tgo_def)
    show "group ?n' = group ?n"
      using e by (simp add: purge_def)
    fix c assume c: "c \<in> set (connections_to w tgo ?n)"
    show "if IadsNetwork_is_friendly w ?n tgo
          then c \<in> set (connections ?n') \<and> UpdateIadsNode (group ?n) \<in> set (?E @ snd r)
          else fst c \<notin> fst ` set (connections ?n')
               \<and> count_list (?E @ snd r) (DeleteIadsConnection (fst c)) = 1"
    proof (cases "IadsNetwork_is_friendly w ?n tgo")
      case True
      have "c \<in> set (connections ?n)"
        using c by (simp add: connections_to_def)
      moreover have "take (length (connections ?n)) (connections ?n') = connections ?n"
        using e True by (simp add: purge_def)
      ultimately have "c \<in> set (take (length (connections ?n)) (connections ?n'))"
        by simp
      then have "c \<in> set (connections ?n')"
        by (rule in_set_takeD)
      moreover have "UpdateIadsNode (group ?n) \<in> set (node_events w tgo ?n)"
        using c True by (auto simp: node_events_def)
      then have "UpdateIadsNode (group ?n) \<in> set ?E"
        using n_in by auto
      ultimately show ?thesis using True by simp
    next
      case False
      have conn: "connections ?n' =
                    filter (\<lambda>c. ground_object (grps w (snd c)) \<noteq> tgo) (connections ?n)"
        using e fr False by (simp add: purge_def)
      have d: "distinct (map fst (connections ?n))"
        using each n_in by simp
      have cin: "c \<in> set (connections ?n)" and cto: "ground_object (grps w (snd c)) = tgo"
        using c by (simp_all add: connections_to_def)
      have "fst c \<notin> fst ` set (connections ?n')"
      proof
        assume "fst c \<in> fst ` set (connections ?n')"
        then obtain c' where c': "c' \<in> set (connections ?n)"
            "ground_object (grps w (snd c')) \<noteq> tgo" "fst c' = fst c"
          unfolding conn by auto
        from d have "inj_on fst (set (connections ?n))"
          by (simp add: distinct_map)
        with c' cin have "c' = c" by (auto dest: inj_onD)
        with c' cto show False by simp
      qed
      moreover have "fst c \<in> set (deleted_ids (node_events w tgo ?n))"
        using c False by (simp add: deleted_ids_node_events)
      then have "fst c \<in> set (deleted_ids (?E @ snd r))"
        using n_in by (auto simp: deleted_ids_append deleted_ids_concat)
      then have "count_list (?E @ snd r) (DeleteIadsConnection (fst c)) = 1"
        unfolding count_list_deleted_ids by (rule count_list_distinct [OF dE])
      ultimately show ?thesis using False by simp
    qed
  qed
  with upd show ?thesis by blast
qed

theorem capture_semantics_witness:
  "advanced_iads ex_built
   \<and> is_comms_or_power (ex_world False 20)
        (for_category (ex_world False 20) (category (tgos (ex_world False 20) 1)))
   \<and> ids_fresh (ex_world False 20) ex_built
   \<and> ids_distinct ex_built
   \<and> update_tgo (ex_world False 20) 1 ex_built =
       Inr (ex_built\<lparr>nodes := [\<lparr>group = 0, connections = [(0, 1)]\<rparr>,
                                \<lparr>group = 3, connections = []\<rparr>]\<rparr>,
            [DeleteIadsConnection 1, DeleteIadsConnection 2])
   \<and> update_tgo (ex_world_b_dead 20) 1 ex_built =
       Inr (ex_built, [UpdateIadsNode 0, UpdateIadsNode 3])
   \<and> (\<exists>s' evs. update_tgo (ex_world False 20) 1 ex_built = Inr (s', evs)
        \<and> list_all2
            (\<lambda>n n'. group n' = group n
               \<and> (\<forall>c \<in> set (connections_to (ex_world False 20) 1 n).
                     if IadsNetwork_is_friendly (ex_world False 20) n 1
                     then c \<in> set (connections n') \<and> UpdateIadsNode (group n) \<in> set evs
                     else fst c \<notin> fst ` set (connections n')
                          \<and> count_list evs (DeleteIadsConnection (fst c)) = 1))
            (nodes ex_built) (nodes s'))"
proof -
  have h1: "advanced_iads ex_built"
    by (simp add: ex_defs)
  have h2: "is_comms_or_power (ex_world False 20)
        (for_category (ex_world False 20) (category (tgos (ex_world False 20) 1)))"
    by (simp add: ex_defs)
  have h3: "ids_fresh (ex_world False 20) ex_built"
    by (simp add: ids_fresh_def ex_defs)
  have h4: "ids_distinct ex_built"
    by (simp add: ids_distinct_def ex_defs)
  have e1: "update_tgo (ex_world False 20) 1 ex_built =
       Inr (ex_built\<lparr>nodes := [\<lparr>group = 0, connections = [(0, 1)]\<rparr>,
                                \<lparr>group = 3, connections = []\<rparr>]\<rparr>,
            [DeleteIadsConnection 1, DeleteIadsConnection 2])"
    by (simp add: net_defs ex_defs)
  have e2: "update_tgo (ex_world_b_dead 20) 1 ex_built =
       Inr (ex_built, [UpdateIadsNode 0, UpdateIadsNode 3])"
    by (simp add: net_defs ex_defs)
  from h1 h2 h3 h4 e1 e2 capture_semantics [OF h1 h2 h3 h4] show ?thesis
    by (intro conjI)
qed

section \<open>Update of any other ground object\<close>

lemma remove_existing_nodes_none:
  "\<forall>cn \<in> set ns. node_tgo w cn \<noteq> tgo \<Longrightarrow> remove_existing_nodes w tgo ns = (ns, [])"
  by (induction w tgo ns rule: remove_existing_nodes.induct) auto

lemma filter_none: "\<forall>x \<in> set xs. \<not> P x \<Longrightarrow> filter P xs = []"
  by (induction xs) auto

lemma filter_all: "\<forall>x \<in> set xs. P x \<Longrightarrow> filter P xs = xs"
  by (induction xs) auto

lemma remove_existing_nodes_eq:
  assumes "distinct (map (node_tgo w) ns)"
  shows "remove_existing_nodes w tgo ns =
     (filter (\<lambda>cn. node_tgo w cn \<noteq> tgo) ns,
      map DeleteIadsConnection
        (concat (map (\<lambda>cn. map fst (connections cn)) (filter (\<lambda>cn. node_tgo w cn = tgo) ns))))"
  using assms
proof (induction w tgo ns rule: remove_existing_nodes.induct)
  case (1 w tgo)
  then show ?case by simp
next
  case (2 w tgo cn)
  then show ?case by simp
next
  case (3 w tgo cn skipped rest)
  show ?case
  proof (cases "node_tgo w cn = tgo")
    case True
    have "tgo \<notin> node_tgo w ` set (skipped # rest)"
      using "3.prems" True by auto
    then have no: "\<forall>x \<in> set (skipped # rest). node_tgo w x \<noteq> tgo"
      by blast
    then have no': "\<forall>x \<in> set rest. node_tgo w x \<noteq> tgo" by simp
    have f1: "filter (\<lambda>cn. node_tgo w cn \<noteq> tgo) (skipped # rest) = skipped # rest"
      by (rule filter_all [OF no])
    have f2: "filter (\<lambda>cn. node_tgo w cn = tgo) (skipped # rest) = []"
      by (rule filter_none) (use no in simp)
    have "remove_existing_nodes w tgo (cn # skipped # rest) =
            (skipped # rest, map DeleteIadsConnection (map fst (connections cn)))"
      using True by (simp add: remove_existing_nodes_none [OF no'])
    moreover have "filter (\<lambda>cn. node_tgo w cn \<noteq> tgo) (cn # skipped # rest) = skipped # rest"
      using True f1 by simp
    moreover have "filter (\<lambda>cn. node_tgo w cn = tgo) (cn # skipped # rest) = [cn]"
      using True f2 by simp
    ultimately show ?thesis by simp
  next
    case False
    have d: "distinct (map (node_tgo w) (skipped # rest))"
      using "3.prems" by simp
    show ?thesis
      using False "3.IH"(2) [OF False d] by simp
  qed
qed



section \<open>Nodes and their ground objects\<close>

lemma anchors_map_group: "anchors w s = map (\<lambda>g. ground_object (grps w g)) (map group (nodes s))"
  by (simp add: anchors_def node_tgo_def comp_def)

lemma same_shape_refl: "same_shape s s"
  by (simp add: same_shape_def)

lemma same_shape_trans: "same_shape s s' \<Longrightarrow> same_shape s' s'' \<Longrightarrow> same_shape s s''"
  by (simp add: same_shape_def)

lemma same_shape_anchors: "same_shape s s' \<Longrightarrow> anchors w s' = anchors w s"
  by (simp add: same_shape_def anchors_map_group)

lemma same_shape_length: "same_shape s s' \<Longrightarrow> length (nodes s') = length (nodes s)"
  by (simp add: same_shape_def) (metis length_map)

lemma same_shape_grows: "same_shape s s' \<Longrightarrow> grows w {} s s'"
  using same_shape_anchors [of s s' w]
  by (simp add: grows_def at_most_one_node_def same_shape_def anchors_def)

lemma grows_refl: "grows w {} s s"
  by (simp add: grows_def)

lemma grows_trans:
  "grows w T1 s s' \<Longrightarrow> grows w T2 s' s'' \<Longrightarrow> grows w (T1 \<union> T2) s s''"
  unfolding grows_def by auto

lemma grows_mono: "grows w T s s' \<Longrightarrow> T \<subseteq> T' \<Longrightarrow> grows w T' s s'"
  unfolding grows_def by blast

lemma on_node_same_shape:
  assumes "\<And>nd. group (fst (f nd)) = group (fst nd)"
  shows "same_shape s (on_node i f s)"
proof -
  have "map group ((nodes s)[i := fst (f (nodes s ! i, draws s))]) = map group (nodes s)"
  proof (cases "i < length (nodes s)")
    case True
    have "map group ((nodes s)[i := fst (f (nodes s ! i, draws s))])
          = (map group (nodes s))[i := group (fst (f (nodes s ! i, draws s)))]"
      by (simp add: map_update)
    also have "\<dots> = (map group (nodes s))[i := map group (nodes s) ! i]"
      using True assms by simp
    also have "\<dots> = map group (nodes s)"
      by (rule list_update_id)
    finally show ?thesis .
  next
    case False
    then have "length (nodes s) \<le> i" by simp
    then show ?thesis by (simp add: list_update_beyond)
  qed
  then show ?thesis
    by (simp add: same_shape_def on_node_def Let_def)
qed

lemma group_add_connection_for_group [simp]:
  "group (fst (add_connection_for_group w g nd)) = group (fst nd)"
  by (simp add: add_connection_for_group_def)

lemma group_add_connection_for_groups [simp]:
  "group (fst (add_connection_for_groups w gs nd)) = group (fst nd)"
  by (induction gs arbitrary: nd) auto

lemma group_add_connection_for_tgo [simp]:
  "group (fst (add_connection_for_tgo w t nd)) = group (fst nd)"
  by (simp add: add_connection_for_tgo_def)

lemma group_make_advanced_connections_loop [simp]:
  "group (fst (make_advanced_connections_loop w gos nd)) = group (fst nd)"
  by (induction gos arbitrary: nd) (auto simp: Let_def)

lemma group_add_connections_from_config_loop [simp]:
  "group (fst (add_connections_from_config_loop w reg cs nd)) = group (fst nd)"
  by (induction cs arbitrary: nd) (auto split: option.splits)

lemma make_advanced_connections_by_range_same_shape:
  "same_shape s (make_advanced_connections_by_range w i s)"
  unfolding make_advanced_connections_by_range_def
  by (rule on_node_same_shape) simp

lemma add_connections_from_config_same_shape:
  "same_shape s (add_connections_from_config w i s)"
proof -
  let ?r = "defaultdict_getitem (original_name (tgos w (node_tgo w (nodes s ! i)))) (iads_config s)"
  have "same_shape (s\<lparr>iads_config := snd ?r\<rparr>)
          (on_node i (add_connections_from_config_loop w (ground_objects s) (fst ?r))
             (s\<lparr>iads_config := snd ?r\<rparr>))"
    by (rule on_node_same_shape) simp
  then show ?thesis
    by (simp add: add_connections_from_config_def Let_def same_shape_def)
qed

lemma node_for_tgo_groups_Some_shape:
  "same_shape s (fst (node_for_tgo_groups w gs (Some i) s))
   \<and> snd (node_for_tgo_groups w gs (Some i) s) = Some i
   \<and> iads_config (fst (node_for_tgo_groups w gs (Some i) s)) = iads_config s"
proof (induction gs arbitrary: s)
  case Nil
  then show ?case by (simp add: same_shape_refl)
next
  case (Cons g gs)
  let ?s = "on_node i (add_connection_for_group w g) s"
  have sh: "same_shape s ?s"
    by (rule on_node_same_shape) simp
  have cfg: "iads_config ?s = iads_config s"
    by (simp add: on_node_def Let_def)
  show ?case
  proof (cases "is_iads_group (grps w g) \<and> alive_units (grps w g) > 0
                \<and> iads_role (grps w g) = POINT_DEFENSE")
    case True
    then have "node_for_tgo_groups w (g # gs) (Some i) s = node_for_tgo_groups w gs (Some i) ?s"
      by simp
    then show ?thesis
      using Cons.IH [of ?s] sh cfg by (auto intro: same_shape_trans)
  next
    case False
    then have "node_for_tgo_groups w (g # gs) (Some i) s = node_for_tgo_groups w gs (Some i) s"
      by auto
    then show ?thesis
      using Cons.IH [of s] by simp
  qed
qed

lemma has_candidate_dropWhile:
  "has_candidate w t \<longleftrightarrow> dropWhile (\<lambda>g. \<not> primary_candidate w g) (groups (tgos w t)) \<noteq> []"
  by (auto simp: has_candidate_def list_ex_iff dropWhile_eq_Nil_conv)

lemma node_for_tgo_existing:
  assumes "index_where (\<lambda>cn. node_tgo w cn = t) (nodes s) = Some i"
  shows "node_for_tgo w t s = (s, Some i)" and "t \<in> set (anchors w s)"
proof -
  show "node_for_tgo w t s = (s, Some i)"
    using assms by (simp add: node_for_tgo_def)
  have "i < length (nodes s)" "node_tgo w (nodes s ! i) = t"
    using index_where_Some [OF assms] by simp_all
  then have "node_tgo w (nodes s ! i) \<in> set (anchors w s)"
    unfolding anchors_def by (metis length_map nth_map nth_mem)
  then show "t \<in> set (anchors w s)"
    using \<open>node_tgo w (nodes s ! i) = t\<close> by simp
qed

lemma node_for_tgo_absent:
  assumes "index_where (\<lambda>cn. node_tgo w cn = t) (nodes s) = None" and "wf_tgo w t"
  shows "case dropWhile (\<lambda>g. \<not> primary_candidate w g) (groups (tgos w t)) of
           [] \<Rightarrow> node_for_tgo w t s = (s, None)
         | p # later \<Rightarrow>
             same_shape (s\<lparr>nodes := nodes s @ [\<lparr>group = p, connections = []\<rparr>]\<rparr>)
               (fst (node_for_tgo w t s))
             \<and> iads_config (fst (node_for_tgo w t s)) = iads_config s
             \<and> ground_object (grps w p) = t"
proof -
  have no: "\<forall>cn \<in> set (nodes s). node_tgo w cn \<noteq> t"
    using assms(1) by (simp add: index_where_None)
  have grp: "\<forall>g \<in> set (groups (tgos w t)). \<forall>cn \<in> set (nodes s). group cn \<noteq> g"
    using no assms(2) by (auto simp: wf_tgo_def list_all_iff node_tgo_def)
  show ?thesis
  proof (cases "dropWhile (\<lambda>g. \<not> primary_candidate w g) (groups (tgos w t))")
    case Nil
    then show ?thesis
      by (simp add: node_for_tgo_def assms(1) node_for_tgo_groups_None [OF grp] Nil)
  next
    case (Cons p later)
    let ?s = "s\<lparr>nodes := nodes s @ [\<lparr>group = p, connections = []\<rparr>]\<rparr>"
    have eq: "node_for_tgo w t s = node_for_tgo_groups w later (Some (length (nodes s))) ?s"
      by (simp add: node_for_tgo_def assms(1) node_for_tgo_groups_None [OF grp] Cons)
    have "p \<in> set (groups (tgos w t))"
      using Cons by (metis list.set_intros(1) set_dropWhileD)
    then have own: "ground_object (grps w p) = t"
      using assms(2) by (simp add: wf_tgo_def list_all_iff)
    show ?thesis
      using node_for_tgo_groups_Some_shape [of ?s w later "length (nodes s)"] own
      by (simp add: Cons eq)
  qed
qed

lemma node_for_tgo_grows:
  assumes "wf_tgo w t"
  shows "grows w {t} s (fst (node_for_tgo w t s))
         \<and> (has_candidate w t \<longrightarrow> t \<in> set (anchors w (fst (node_for_tgo w t s))))
         \<and> iads_config (fst (node_for_tgo w t s)) = iads_config s"
proof (cases "index_where (\<lambda>cn. node_tgo w cn = t) (nodes s)")
  case (Some i)
  show ?thesis
    using node_for_tgo_existing [OF Some] grows_mono [OF grows_refl, of "{t}" w s]
    by simp
next
  case None
  have no: "t \<notin> set (anchors w s)"
    using None by (auto simp: index_where_None anchors_def)
  note ab = node_for_tgo_absent [OF None assms]
  show ?thesis
  proof (cases "dropWhile (\<lambda>g. \<not> primary_candidate w g) (groups (tgos w t))")
    case Nil
    have "node_for_tgo w t s = (s, None)"
      using ab by (simp add: Nil)
    moreover have "\<not> has_candidate w t"
      using Nil by (simp add: has_candidate_dropWhile)
    ultimately show ?thesis
      using grows_mono [OF grows_refl, of "{t}" w s] by simp
  next
    case (Cons p later)
    let ?s = "s\<lparr>nodes := nodes s @ [\<lparr>group = p, connections = []\<rparr>]\<rparr>"
    let ?s' = "fst (node_for_tgo w t s)"
    have sh: "same_shape ?s ?s'" and cfg: "iads_config ?s' = iads_config s"
      and own: "ground_object (grps w p) = t"
      using ab by (simp_all add: Cons)
    have an: "anchors w ?s' = anchors w s @ [t]"
      using same_shape_anchors [OF sh, of w] own by (simp add: anchors_def node_tgo_def)
    have "grows w {t} s ?s'"
      using sh an no by (auto simp: grows_def same_shape_def at_most_one_node_def anchors_def)
    then show ?thesis
      using an cfg by simp
  qed
qed

section \<open>The loops of the initialisation\<close>

lemma grows_anchor_kept:
  "grows w T s s' \<Longrightarrow> t \<in> set (anchors w s) \<Longrightarrow> t \<in> set (anchors w s')"
  unfolding grows_def by blast

lemma initialize_basic_iads_loop_grows:
  assumes "\<forall>t \<in> set ts. wf_tgo w t"
  shows "grows w (set ts) s (initialize_basic_iads_loop w ts s)
         \<and> iads_config (initialize_basic_iads_loop w ts s) = iads_config s
         \<and> (\<forall>t \<in> set ts. is_IadsGroundObject (tgos w t) \<and> has_candidate w t \<longrightarrow>
               t \<in> set (anchors w (initialize_basic_iads_loop w ts s)))"
  using assms
proof (induction ts arbitrary: s)
  case Nil
  then show ?case by (simp add: grows_refl)
next
  case (Cons t ts)
  define s1 where "s1 = (if is_IadsGroundObject (tgos w t) then fst (node_for_tgo w t s) else s)"
  have wf: "wf_tgo w t" and wfs: "\<forall>t \<in> set ts. wf_tgo w t"
    using Cons.prems by simp_all
  have step: "initialize_basic_iads_loop w (t # ts) s = initialize_basic_iads_loop w ts s1"
    by (simp add: s1_def)
  have g1: "grows w {t} s s1" and c1: "iads_config s1 = iads_config s"
    and a1: "is_IadsGroundObject (tgos w t) \<and> has_candidate w t \<longrightarrow> t \<in> set (anchors w s1)"
    using node_for_tgo_grows [OF wf, of s] grows_mono [OF grows_refl, of "{t}" w s]
    by (simp_all add: s1_def)
  note ih = Cons.IH [OF wfs, of s1]
  have g: "grows w (set (t # ts)) s (initialize_basic_iads_loop w ts s1)"
    using grows_trans [OF g1 conjunct1 [OF ih]] by simp
  have "is_IadsGroundObject (tgos w t) \<and> has_candidate w t \<longrightarrow>
          t \<in> set (anchors w (initialize_basic_iads_loop w ts s1))"
    using a1 grows_anchor_kept [OF conjunct1 [OF ih]] by blast
  then show ?case
    unfolding step using g ih c1 by simp
qed

lemma initialize_network_from_range_loop_grows:
  assumes "\<forall>t \<in> set ts. wf_tgo w t"
  shows "grows w (set ts) s (initialize_network_from_range_loop w ts s)
         \<and> (\<forall>t \<in> set ts. range_kind w t \<and> has_candidate w t \<longrightarrow>
               t \<in> set (anchors w (initialize_network_from_range_loop w ts s)))"
  using assms
proof (induction ts arbitrary: s)
  case Nil
  then show ?case by (simp add: grows_refl)
next
  case (Cons t ts)
  define s1 where "s1 =
    (if range_kind w t then
       (case node_for_tgo w t s of
          (s', None) \<Rightarrow> s'
        | (s', Some i) \<Rightarrow> make_advanced_connections_by_range w i s')
     else s)"
  have wf: "wf_tgo w t" and wfs: "\<forall>t \<in> set ts. wf_tgo w t"
    using Cons.prems by simp_all
  have step: "initialize_network_from_range_loop w (t # ts) s =
                initialize_network_from_range_loop w ts s1"
    by (simp add: s1_def range_kind_def Let_def split: prod.splits option.splits)
  have sh: "same_shape (fst (node_for_tgo w t s)) s1" if "range_kind w t"
    using that make_advanced_connections_by_range_same_shape
    by (auto simp: s1_def same_shape_refl split: prod.splits option.splits)
  have g1: "grows w {t} s s1"
  proof (cases "range_kind w t")
    case True
    have "grows w ({t} \<union> {}) s s1"
      using node_for_tgo_grows [OF wf, of s] same_shape_grows [OF sh [OF True], of w]
      by (blast intro: grows_trans)
    then show ?thesis by simp
  next
    case False
    then show ?thesis
      using grows_mono [OF grows_refl, of "{t}" w s] by (simp add: s1_def)
  qed
  have a1: "range_kind w t \<and> has_candidate w t \<longrightarrow> t \<in> set (anchors w s1)"
    using node_for_tgo_grows [OF wf, of s] same_shape_anchors [OF sh, of w] by auto
  note ih = Cons.IH [OF wfs, of s1]
  have g: "grows w (set (t # ts)) s (initialize_network_from_range_loop w ts s1)"
    using grows_trans [OF g1 conjunct1 [OF ih]] by simp
  have "range_kind w t \<and> has_candidate w t \<longrightarrow>
          t \<in> set (anchors w (initialize_network_from_range_loop w ts s1))"
    using a1 grows_anchor_kept [OF conjunct1 [OF ih]] by blast
  then show ?case
    unfolding step using g ih by simp
qed

lemma initialize_network_from_config_loop_grows:
  assumes "initialize_network_from_config_loop w ks s = Inr s'"
    and "\<forall>t \<in> snd ` set (ground_objects s). wf_tgo w t"
  shows "grows w (snd ` set (ground_objects s)) s s'
         \<and> (\<forall>k \<in> set ks. \<forall>t. map_of (ground_objects s) k = Some t \<and> has_candidate w t \<longrightarrow>
               t \<in> set (anchors w s'))"
  using assms
proof (induction ks arbitrary: s)
  case Nil
  then show ?case
    using grows_mono [OF grows_refl, of "snd ` set (ground_objects s)" w s] by simp
next
  case (Cons k ks)
  define r where "r = (case map_of (ground_objects s) k of
                         Some t \<Rightarrow> node_for_tgo w t s | None \<Rightarrow> (s, None))"
  define s1 where "s1 = (case snd r of None \<Rightarrow> fst r
                         | Some i \<Rightarrow> add_connections_from_config w i (fst r))"
  have rest: "initialize_network_from_config_loop w ks s1 = Inr s'"
    using Cons.prems(1) unfolding r_def s1_def by (simp add: Let_def split: if_splits)
  have gr: "grows w (snd ` set (ground_objects s)) s (fst r)
            \<and> (\<forall>t. map_of (ground_objects s) k = Some t \<and> has_candidate w t \<longrightarrow>
                   t \<in> set (anchors w (fst r)))"
  proof (cases "map_of (ground_objects s) k")
    case None
    then show ?thesis
      using grows_mono [OF grows_refl, of "snd ` set (ground_objects s)" w s]
      by (simp add: r_def)
  next
    case (Some t)
    then have t_in: "t \<in> snd ` set (ground_objects s)"
      by (metis map_of_SomeD snd_conv image_eqI)
    then have wf: "wf_tgo w t"
      using Cons.prems(2) by blast
    have "grows w (snd ` set (ground_objects s)) s (fst (node_for_tgo w t s))"
      using node_for_tgo_grows [OF wf, of s] t_in by (auto intro: grows_mono)
    then show ?thesis
      using node_for_tgo_grows [OF wf, of s] Some by (simp add: r_def)
  qed
  have sh: "same_shape (fst r) s1"
    by (cases "snd r") (simp_all add: s1_def same_shape_refl add_connections_from_config_same_shape)
  have g1: "grows w (snd ` set (ground_objects s)) s s1"
    using grows_trans [OF conjunct1 [OF gr] same_shape_grows [OF sh, of w]] by simp
  have reg: "ground_objects s1 = ground_objects s"
    using g1 by (simp add: grows_def)
  have a1: "\<forall>t. map_of (ground_objects s) k = Some t \<and> has_candidate w t \<longrightarrow>
                t \<in> set (anchors w s1)"
    using gr same_shape_anchors [OF sh, of w] by simp
  have wfs: "\<forall>t \<in> snd ` set (ground_objects s1). wf_tgo w t"
    using Cons.prems(2) reg by simp
  note ih = Cons.IH [OF rest wfs]
  have g: "grows w (snd ` set (ground_objects s)) s s'"
    using grows_trans [OF g1 conjunct1 [OF ih]] reg by simp
  have "\<forall>t. map_of (ground_objects s) k = Some t \<and> has_candidate w t \<longrightarrow>
            t \<in> set (anchors w s')"
    using a1 grows_anchor_kept [OF conjunct1 [OF ih]] by blast
  then show ?case
    using g ih reg by simp
qed

lemma register_ground_objects_keys:
  "distinct (map fst reg) \<Longrightarrow> distinct (map fst (register_ground_objects w gos reg))"
  unfolding register_ground_objects_def
  by (induction gos arbitrary: reg) (simp_all add: AList.distinct_update)

lemma set_update_subset: "set (AList.update k v al) \<subseteq> insert (k, v) (set al)"
  by (induction al) auto

lemma register_ground_objects_values:
  "snd ` set (register_ground_objects w gos reg) \<subseteq> snd ` set reg \<union> set gos"
  unfolding register_ground_objects_def
proof (induction gos arbitrary: reg)
  case Nil
  then show ?case by simp
next
  case (Cons t gos)
  have "snd ` set (AList.update (original_name (tgos w t)) t reg) \<subseteq> insert t (snd ` set reg)"
    using set_update_subset [of "original_name (tgos w t)" t reg] by force
  with Cons [of "AList.update (original_name (tgos w t)) t reg"] show ?case
    by auto
qed

lemma update_iads_comms_and_power_loop_groups:
  "update_iads_comms_and_power_loop w tgo ns = Inr (ns', evs) \<Longrightarrow>
   map group ns' = map group ns"
proof (induction ns arbitrary: ns' evs)
  case Nil
  then show ?case by simp
next
  case (Cons n ns)
  then show ?case
    by (auto split: prod.splits sum.splits)
qed

lemma update_network_loop_groups:
  "map group (fst (update_network_loop w tgo ns d)) = map group ns"
proof (induction ns arbitrary: d)
  case Nil
  then show ?case by simp
next
  case (Cons n ns)
  show ?case
    by (simp add: Let_def split_beta Cons.IH)
qed

lemma update_network_same_shape: "same_shape s (fst (update_network w tgo s))"
  using update_network_loop_groups [of w tgo "nodes s" "draws s"]
  by (auto simp: update_network_def same_shape_def split: prod.splits)

section \<open>One node for a ground object\<close>

lemma one_of_distinct:
  "distinct (map f xs) \<Longrightarrow> t \<in> set (map f xs) \<Longrightarrow> length (filter (\<lambda>x. f x = t) xs) = 1"
proof (induction xs)
  case Nil
  then show ?case by simp
next
  case (Cons x xs)
  show ?case
  proof (cases "f x = t")
    case True
    then have "t \<notin> f ` set xs"
      using Cons.prems(1) by auto
    then have "\<forall>y \<in> set xs. f y \<noteq> t"
      by blast
    then have "filter (\<lambda>x. f x = t) xs = []"
      by (simp add: filter_none)
    then show ?thesis using True by simp
  next
    case False
    then show ?thesis using Cons by auto
  qed
qed

lemma initialize_basic_iads_grows:
  assumes "\<forall>t \<in> snd ` set (ground_objects s). wf_tgo w t"
  shows "grows w (snd ` set (ground_objects s)) s (initialize_basic_iads w s)
         \<and> (\<forall>e \<in> set (ground_objects s).
               is_IadsGroundObject (tgos w (snd e)) \<and> has_candidate w (snd e) \<longrightarrow>
               snd e \<in> set (anchors w (initialize_basic_iads w s)))"
  using initialize_basic_iads_loop_grows [of "map snd (ground_objects s)" w s] assms
  by (simp add: initialize_basic_iads_def)

lemma initialize_network_from_range_grows:
  assumes "\<forall>t \<in> snd ` set (ground_objects s). wf_tgo w t"
  shows "grows w (snd ` set (ground_objects s)) s (initialize_network_from_range w s)
         \<and> (\<forall>e \<in> set (ground_objects s).
               range_kind w (snd e) \<and> has_candidate w (snd e) \<longrightarrow>
               snd e \<in> set (anchors w (initialize_network_from_range w s)))"
  using initialize_network_from_range_loop_grows [of "map snd (ground_objects s)" w s] assms
  by (simp add: initialize_network_from_range_def)

lemma initialize_network_from_config_grows:
  assumes "initialize_network_from_config w s = Inr s'"
    and "\<forall>t \<in> snd ` set (ground_objects s). wf_tgo w t"
    and "distinct (map fst (ground_objects s))"
  shows "grows w (snd ` set (ground_objects s)) s s'
         \<and> (\<forall>e \<in> set (ground_objects s).
               fst e \<in> set (map fst (iads_config s)) \<and> has_candidate w (snd e) \<longrightarrow>
               snd e \<in> set (anchors w s'))"
proof -
  note l = initialize_network_from_config_loop_grows
    [OF assms(1) [unfolded initialize_network_from_config_def] assms(2)]
  have "snd e \<in> set (anchors w s')"
    if e: "e \<in> set (ground_objects s)" and k: "fst e \<in> set (map fst (iads_config s))"
      and c: "has_candidate w (snd e)" for e
  proof -
    have "map_of (ground_objects s) (fst e) = Some (snd e)"
      using assms(3) e by (simp add: map_of_is_SomeI)
    with l k c show ?thesis by blast
  qed
  with l show ?thesis by blast
qed

lemma initialize_network_grows:
  assumes "nodes s = []" and "ground_objects s = []" and "list_all (wf_tgo w) gos"
    and "initialize_network w gos s = Inr s'"
  shows "at_most_one_node w s'
         \<and> (\<forall>e \<in> set (ground_objects s').
               derives_node w s e \<and> has_candidate w (snd e) \<longrightarrow>
               snd e \<in> set (anchors w s'))"
proof -
  define reg where "reg = register_ground_objects w gos []"
  define s0 where "s0 = s\<lparr>ground_objects := reg\<rparr>"
  have dk: "distinct (map fst reg)"
    unfolding reg_def by (rule register_ground_objects_keys) simp
  have "snd ` set reg \<subseteq> set gos"
    using register_ground_objects_values [of w gos "[]"] by (simp add: reg_def)
  then have wf0: "\<forall>t \<in> snd ` set (ground_objects s0). wf_tgo w t"
    using assms(3) by (auto simp: s0_def list_all_iff)
  have amo0: "at_most_one_node w s0"
    using assms(1) by (simp add: s0_def at_most_one_node_def)
  obtain s1 where adv: "initialize_advanced w s0 = Inr s1"
    and fin: "s' = (if nodes s1 = [] then initialize_basic_iads w s1 else s1)"
    using assms(2,4) by (auto simp: initialize_network_def s0_def reg_def split: sum.splits)
  have g1: "grows w (snd ` set reg) s0 s1
            \<and> (\<forall>e \<in> set reg. derives_node w s e \<and> has_candidate w (snd e)
                   \<and> (advanced_iads s \<or> nodes s1 \<noteq> []) \<longrightarrow>
                   snd e \<in> set (anchors w s1))"
  proof (cases "advanced_iads s")
    case False
    then have "s1 = s0"
      using adv by (simp add: initialize_advanced_def s0_def)
    then show ?thesis
      using False grows_mono [OF grows_refl, of "snd ` set reg" w s0] assms(1)
      by (simp add: s0_def)
  next
    case True
    show ?thesis
    proof (cases "iads_config s = []")
      case cfg: True
      then have "s1 = initialize_network_from_range w s0"
        using adv True by (simp add: initialize_advanced_def s0_def)
      then show ?thesis
        using initialize_network_from_range_grows [OF wf0] True cfg
        by (simp add: s0_def derives_node_def)
    next
      case cfg: False
      then have "initialize_network_from_config w s0 = Inr s1"
        using adv True by (simp add: initialize_advanced_def s0_def)
      then show ?thesis
        using initialize_network_from_config_grows [OF _ wf0, of s1] dk True cfg
        by (simp add: s0_def derives_node_def)
    qed
  qed
  have reg1: "ground_objects s1 = reg" and adv1: "advanced_iads s1 = advanced_iads s"
    using g1 by (simp_all add: grows_def s0_def)
  have wf1: "\<forall>t \<in> snd ` set (ground_objects s1). wf_tgo w t"
    using wf0 reg1 by (simp add: s0_def)
  note b = initialize_basic_iads_grows [OF wf1]
  have g2: "grows w (snd ` set reg) s1 s'"
    using b grows_mono [OF grows_refl, of "snd ` set reg" w s1] reg1 by (simp add: fin)
  have g: "grows w (snd ` set reg) s0 s'"
    using grows_trans [OF conjunct1 [OF g1] g2] by simp
  have amo: "at_most_one_node w s'"
    using g amo0 by (simp add: grows_def)
  have reg': "ground_objects s' = reg"
    using g by (simp add: grows_def s0_def)
  have "snd e \<in> set (anchors w s')"
    if e: "e \<in> set reg" and d: "derives_node w s e" and c: "has_candidate w (snd e)" for e
  proof (cases "advanced_iads s \<or> nodes s1 \<noteq> []")
    case True
    then have "snd e \<in> set (anchors w s1)"
      using g1 e d c by blast
    then show ?thesis
      by (rule grows_anchor_kept [OF g2])
  next
    case False
    then have "is_IadsGroundObject (tgos w (snd e))" and "s' = initialize_basic_iads w s1"
      using d by (simp_all add: derives_node_def fin)
    then show ?thesis
      using b e c reg1 by simp
  qed
  with amo reg' show ?thesis by simp
qed

lemma update_tgo_at_most_one:
  assumes "at_most_one_node w s" and "wf_tgo w tgo" and "update_tgo w tgo s = Inr (s2, evs)"
  shows "at_most_one_node w s2"
proof (cases "advanced_iads s \<and> is_comms_or_power w (for_category w (category (tgos w tgo)))")
  case True
  then have u: "update_iads_comms_and_power w tgo s = Inr (s2, evs)"
    using assms(3) by (simp add: update_tgo_def)
  then obtain ns evs1 where l: "update_iads_comms_and_power_loop w tgo (nodes s) = Inr (ns, evs1)"
    and s2: "s2 = (if iads_config s = [] then fst (update_network w tgo (s\<lparr>nodes := ns\<rparr>))
                   else s\<lparr>nodes := ns\<rparr>)"
    using True
    by (auto simp: update_iads_comms_and_power_def split: sum.splits prod.splits if_splits)
  have "same_shape s (s\<lparr>nodes := ns\<rparr>)"
    using update_iads_comms_and_power_loop_groups [OF l] by (simp add: same_shape_def)
  moreover have "same_shape (s\<lparr>nodes := ns\<rparr>) s2"
    using update_network_same_shape [of "s\<lparr>nodes := ns\<rparr>" w tgo]
    by (simp add: s2 same_shape_refl)
  ultimately have "same_shape s s2"
    by (rule same_shape_trans)
  then show ?thesis
    using assms(1) same_shape_anchors [of s s2 w] by (simp add: at_most_one_node_def anchors_def)
next
  case False
  let ?s0 = "s\<lparr>nodes := filter (\<lambda>cn. node_tgo w cn \<noteq> tgo) (nodes s)\<rparr>"
  let ?r = "node_for_tgo w tgo ?s0"
  have rem: "fst (remove_existing_nodes w tgo (nodes s))
               = filter (\<lambda>cn. node_tgo w cn \<noteq> tgo) (nodes s)"
    using assms(1) by (simp add: at_most_one_node_def remove_existing_nodes_eq)
  have amo0: "at_most_one_node w ?s0"
    using assms(1) by (simp add: at_most_one_node_def distinct_map_filter)
  have amo1: "at_most_one_node w (fst ?r)"
    using node_for_tgo_grows [OF assms(2), of ?s0] amo0 by (simp add: grows_def)
  have "same_shape (fst ?r) s2"
  proof (cases "snd ?r")
    case None
    then have "s2 = fst ?r"
      using assms(3) False rem
      by (auto simp: update_tgo_def split: prod.splits option.splits)
    then show ?thesis by (simp add: same_shape_refl)
  next
    case (Some i)
    then have "s2 = (if advanced_iads (fst ?r) then
                       (if iads_config (fst ?r) \<noteq> [] then add_connections_from_config w i (fst ?r)
                        else make_advanced_connections_by_range w i (fst ?r))
                     else fst ?r)"
      using assms(3) False rem
      by (auto simp: update_tgo_def split: prod.splits option.splits)
    then show ?thesis
      by (simp add: same_shape_refl add_connections_from_config_same_shape
            make_advanced_connections_by_range_same_shape)
  qed
  then show ?thesis
    using amo1 same_shape_anchors [of "fst ?r" s2 w]
    by (simp add: at_most_one_node_def anchors_def)
qed

text \<open>
  C1, amended: after \<open>initialize_network\<close> on a network with no nodes and no registry,
  for ground objects whose groups name them as owner, no two nodes are anchored on the
  same ground object, and exactly one node is anchored on every registered ground object
  that has an IADS group with a living unit and a participating role and that the mode
  derives a node for (a key of the configuration; in range mode an IADS or naval ground
  object or a command-centre building; in basic mode an IADS ground object). And
  \<open>update_tgo\<close> keeps it that no two nodes are anchored on the same ground object.
\<close>

theorem one_node_per_installation:
  "(nodes s = [] \<and> ground_objects s = [] \<and> list_all (wf_tgo w) gos
      \<and> initialize_network w gos s = Inr s' \<longrightarrow>
      at_most_one_node w s'
      \<and> (\<forall>e \<in> set (ground_objects s').
            derives_node w s e \<and> has_candidate w (snd e) \<longrightarrow>
            length (nodes_on w s' (snd e)) = 1))
   \<and> (at_most_one_node w2 s1 \<and> wf_tgo w2 tgo \<and> update_tgo w2 tgo s1 = Inr (s2, evs) \<longrightarrow>
      at_most_one_node w2 s2)"
proof (intro conjI impI)
  assume a: "nodes s = [] \<and> ground_objects s = [] \<and> list_all (wf_tgo w) gos
             \<and> initialize_network w gos s = Inr s'"
  then have g: "at_most_one_node w s'
         \<and> (\<forall>e \<in> set (ground_objects s').
               derives_node w s e \<and> has_candidate w (snd e) \<longrightarrow>
               snd e \<in> set (anchors w s'))"
    using initialize_network_grows [of s w gos s'] by simp
  then show "at_most_one_node w s'" by simp
  show "\<forall>e \<in> set (ground_objects s').
          derives_node w s e \<and> has_candidate w (snd e) \<longrightarrow>
          length (nodes_on w s' (snd e)) = 1"
  proof (intro ballI impI)
    fix e assume "e \<in> set (ground_objects s')"
      and "derives_node w s e \<and> has_candidate w (snd e)"
    with g have "snd e \<in> set (map (node_tgo w) (nodes s'))"
      by (simp add: anchors_def)
    moreover have "distinct (map (node_tgo w) (nodes s'))"
      using g by (simp add: at_most_one_node_def)
    ultimately show "length (nodes_on w s' (snd e)) = 1"
      unfolding nodes_on_def by (rule one_of_distinct [rotated])
  qed
next
  assume "at_most_one_node w2 s1 \<and> wf_tgo w2 tgo \<and> update_tgo w2 tgo s1 = Inr (s2, evs)"
  then show "at_most_one_node w2 s2"
    using update_tgo_at_most_one [of w2 s1 tgo s2 evs] by simp
qed

theorem one_node_per_installation_witness:
  "nodes (ex_net True []) = [] \<and> ground_objects (ex_net True []) = []
   \<and> list_all (wf_tgo (ex_world True 20)) [0, 1, 2]
   \<and> initialize_network (ex_world True 20) [0, 1, 2] (ex_net True []) = Inr ex_built
   \<and> at_most_one_node (ex_world True 20) ex_built
   \<and> length (nodes_on (ex_world True 20) ex_built 0) = 1
   \<and> length (nodes_on (ex_world True 20) ex_built 2) = 1
   \<and> update_tgo (ex_world True 20) 0 ex_built =
       Inr (ex_built\<lparr>nodes := [\<lparr>group = 3, connections = [(2, 2)]\<rparr>,
                                \<lparr>group = 0, connections = [(3, 1), (4, 2)]\<rparr>],
                       draws := 5\<rparr>,
            [DeleteIadsConnection 0, DeleteIadsConnection 1, UpdateIadsNode 0])
   \<and> at_most_one_node (ex_world True 20)
        (ex_built\<lparr>nodes := [\<lparr>group = 3, connections = [(2, 2)]\<rparr>,
                             \<lparr>group = 0, connections = [(3, 1), (4, 2)]\<rparr>],
                    draws := 5\<rparr>)"
proof -
  let ?W = "ex_world True 20"
  let ?s2 = "ex_built\<lparr>nodes := [\<lparr>group = 3, connections = [(2, 2)]\<rparr>,
                             \<lparr>group = 0, connections = [(3, 1), (4, 2)]\<rparr>],
                    draws := 5\<rparr>"
  have h1: "nodes (ex_net True []) = []" and h2: "ground_objects (ex_net True []) = []"
    by (simp_all add: ex_defs)
  have h3: "list_all (wf_tgo ?W) [0, 1, 2]"
    by (simp add: wf_tgo_def ex_defs)
  have h4: "initialize_network ?W [0, 1, 2] (ex_net True []) = Inr ex_built"
    by (simp add: net_defs ex_defs)
  have h5: "wf_tgo ?W 0"
    by (simp add: wf_tgo_def ex_defs)
  have h6: "update_tgo ?W 0 ex_built =
              Inr (?s2, [DeleteIadsConnection 0, DeleteIadsConnection 1, UpdateIadsNode 0])"
    by (simp add: net_defs ex_defs)
  note t = one_node_per_installation
    [where s = "ex_net True []" and w = ?W and gos = "[0, 1, 2]" and s' = ex_built
       and ?w2.0 = ?W and ?s1.0 = ex_built and tgo = 0 and ?s2.0 = ?s2
       and evs = "[DeleteIadsConnection 0, DeleteIadsConnection 1, UpdateIadsNode 0]"]
  have a: "at_most_one_node ?W ex_built"
    and b: "\<forall>e \<in> set (ground_objects ex_built).
              derives_node ?W (ex_net True []) e \<and> has_candidate ?W (snd e) \<longrightarrow>
              length (nodes_on ?W ex_built (snd e)) = 1"
    using t h1 h2 h3 h4 by blast+
  have mem: "(''A'', 0) \<in> set (ground_objects ex_built)" "(''C'', 2) \<in> set (ground_objects ex_built)"
    by (simp_all add: ex_defs)
  have d: "derives_node ?W (ex_net True []) (''A'', 0)" "derives_node ?W (ex_net True []) (''C'', 2)"
    by (simp_all add: derives_node_def range_kind_def ex_defs)
  have c: "has_candidate ?W 0" "has_candidate ?W 2"
    by (simp_all add: has_candidate_def primary_candidate_def alive_units_def ex_defs)
  have n0: "length (nodes_on ?W ex_built 0) = 1"
    using b mem(1) d(1) c(1) by fastforce
  have n2: "length (nodes_on ?W ex_built 2) = 1"
    using b mem(2) d(2) c(2) by fastforce
  have u: "at_most_one_node ?W ?s2"
    using t a h5 h6 by blast
  from h1 h2 h3 h4 a n0 n2 h6 u show ?thesis
    by (intro conjI)
qed

text \<open>
  C1 as stated fails at B: in range mode the power source B has a participating group
  with a living unit and is registered, and no node is anchored on it.
\<close>

theorem power_source_has_no_node:
  "has_candidate (ex_world True 20) 1
   \<and> (''B'', 1) \<in> set (ground_objects ex_built)
   \<and> initialize_network (ex_world True 20) [0, 1, 2] (ex_net True []) = Inr ex_built
   \<and> nodes_on (ex_world True 20) ex_built 1 = []"
proof -
  have "has_candidate (ex_world True 20) 1"
    by (simp add: has_candidate_def primary_candidate_def alive_units_def ex_defs)
  moreover have "(''B'', 1) \<in> set (ground_objects ex_built)"
    by (simp add: ex_defs)
  moreover have "initialize_network (ex_world True 20) [0, 1, 2] (ex_net True []) = Inr ex_built"
    by (simp add: net_defs ex_defs)
  moreover have "nodes_on (ex_world True 20) ex_built 1 = []"
    by (simp add: nodes_on_def node_tgo_def ex_defs)
  ultimately show ?thesis by (intro conjI)
qed

section \<open>The basic mode\<close>

lemma new_node_basic:
  assumes "e \<in> set reg" and "is_IadsGroundObject (tgos w (snd e))"
    and "dropWhile (\<lambda>g. \<not> primary_candidate w g) (groups (tgos w (snd e))) = p # later"
  shows "basic_node w reg (new_node w p later d)"
proof -
  have "map snd (connections (new_node w p later d)) = filter (point_defense_candidate w) later"
    by (simp add: new_node_def Let_def)
  moreover have "group (new_node w p later d) = p"
    by (simp add: new_node_def)
  ultimately show ?thesis
    using assms unfolding basic_node_def list_ex_iff by force
qed

lemma node_for_tgo_basic_nodes:
  assumes "inj (uuid4 w)" and "wf_tgo w t" and "t \<in> snd ` set reg"
    and "is_IadsGroundObject (tgos w t)" and "list_all (basic_node w reg) (nodes s)"
  shows "list_all (basic_node w reg) (nodes (fst (node_for_tgo w t s)))"
proof (cases "index_where (\<lambda>cn. node_tgo w cn = t) (nodes s)")
  case (Some i)
  then show ?thesis
    using assms(5) node_for_tgo_existing(1) [OF Some] by simp
next
  case None
  then have no: "no_node_on w t s"
    by (simp add: no_node_on_def index_where_None list_all_iff)
  note c = node_for_tgo_create [OF no assms(2) assms(1)]
  obtain e where e: "e \<in> set reg" "snd e = t"
    using assms(3) by auto
  show ?thesis
  proof (cases "dropWhile (\<lambda>g. \<not> primary_candidate w g) (groups (tgos w t))")
    case Nil
    show ?thesis
      using assms(5) by (simp add: c Nil)
  next
    case (Cons p later)
    have "basic_node w reg (new_node w p later (draws s))"
      using new_node_basic [OF e(1), of w p later] assms(4) Cons e(2) by simp
    then show ?thesis
      using assms(5) by (simp add: c Cons)
  qed
qed

lemma initialize_basic_iads_loop_basic_nodes:
  assumes "inj (uuid4 w)" and "\<forall>t \<in> set ts. wf_tgo w t \<and> t \<in> snd ` set reg"
    and "list_all (basic_node w reg) (nodes s)"
  shows "list_all (basic_node w reg) (nodes (initialize_basic_iads_loop w ts s))"
  using assms(2,3)
proof (induction ts arbitrary: s)
  case Nil
  then show ?case by simp
next
  case (Cons t ts)
  show ?case
  proof (cases "is_IadsGroundObject (tgos w t)")
    case True
    have "list_all (basic_node w reg) (nodes (fst (node_for_tgo w t s)))"
      using node_for_tgo_basic_nodes [OF assms(1) _ _ True Cons.prems(2)] Cons.prems(1)
      by simp
    then show ?thesis
      using True Cons.IH [of "fst (node_for_tgo w t s)"] Cons.prems(1) by simp
  next
    case False
    then show ?thesis
      using Cons.IH [of s] Cons.prems by simp
  qed
qed

lemma initialize_advanced_registry:
  assumes "initialize_advanced w s = Inr s1"
    and "\<forall>t \<in> snd ` set (ground_objects s). wf_tgo w t"
  shows "ground_objects s1 = ground_objects s"
proof (cases "advanced_iads s")
  case False
  then show ?thesis
    using assms(1) by (simp add: initialize_advanced_def)
next
  case True
  show ?thesis
  proof (cases "iads_config s = []")
    case cfg: True
    then have "s1 = initialize_network_from_range w s"
      using assms(1) True by (simp add: initialize_advanced_def)
    then show ?thesis
      using initialize_network_from_range_grows [OF assms(2)] by (simp add: grows_def)
  next
    case cfg: False
    then have "initialize_network_from_config_loop w (map fst (iads_config s)) s = Inr s1"
      using assms(1) True
      by (simp add: initialize_advanced_def initialize_network_from_config_def)
    then show ?thesis
      using initialize_network_from_config_loop_grows [OF _ assms(2)] by (simp add: grows_def)
  qed
qed

text \<open>
  C5, amended: when the advanced phase of \<open>initialize_network\<close> (none in basic mode,
  else from the configuration or by range) leaves no node, the result is that of
  \<open>initialize_basic_iads\<close>: exactly one node for every registered IADS ground object
  that has an IADS group with a living unit and a participating role, and every node is
  such a node, whose connections go to the later point-defence groups with a living
  unit of its own ground object and to nothing else. (The groups of the ground objects
  name them as owner and no id is drawn twice.)
\<close>

theorem basic_fallback:
  assumes "ground_objects s = []" and "list_all (wf_tgo w) gos" and "inj (uuid4 w)"
    and "initialize_advanced w (s\<lparr>ground_objects := register_ground_objects w gos []\<rparr>)
           = Inr s1"
    and "nodes s1 = []"
  shows "initialize_network w gos s = Inr (initialize_basic_iads w s1)
     \<and> (\<forall>e \<in> set (ground_objects s1).
           is_IadsGroundObject (tgos w (snd e)) \<and> has_candidate w (snd e) \<longrightarrow>
           length (nodes_on w (initialize_basic_iads w s1) (snd e)) = 1)
     \<and> list_all (basic_node w (ground_objects s1)) (nodes (initialize_basic_iads w s1))"
proof -
  let ?reg = "register_ground_objects w gos []"
  let ?s0 = "s\<lparr>ground_objects := ?reg\<rparr>"
  let ?s' = "initialize_basic_iads w s1"
  have "snd ` set ?reg \<subseteq> set gos"
    using register_ground_objects_values [of w gos "[]"] by simp
  then have wf0: "\<forall>t \<in> snd ` set (ground_objects ?s0). wf_tgo w t"
    using assms(2) by (auto simp: list_all_iff)
  have reg1: "ground_objects s1 = ?reg"
    using initialize_advanced_registry [OF assms(4) wf0] by simp
  have wf1: "\<forall>t \<in> snd ` set (ground_objects s1). wf_tgo w t"
    using wf0 reg1 by simp
  have run: "initialize_network w gos s = Inr ?s'"
    using assms(1,4,5) by (simp add: initialize_network_def)
  note b = initialize_basic_iads_grows [OF wf1]
  have "at_most_one_node w s1"
    using assms(5) by (simp add: at_most_one_node_def)
  then have amo: "distinct (map (node_tgo w) (nodes ?s'))"
    using b by (simp add: grows_def at_most_one_node_def)
  have one: "\<forall>e \<in> set (ground_objects s1).
           is_IadsGroundObject (tgos w (snd e)) \<and> has_candidate w (snd e) \<longrightarrow>
           length (nodes_on w ?s' (snd e)) = 1"
  proof (intro ballI impI)
    fix e assume "e \<in> set (ground_objects s1)"
      and "is_IadsGroundObject (tgos w (snd e)) \<and> has_candidate w (snd e)"
    with b have "snd e \<in> set (map (node_tgo w) (nodes ?s'))"
      by (simp add: anchors_def)
    with amo show "length (nodes_on w ?s' (snd e)) = 1"
      unfolding nodes_on_def by (rule one_of_distinct)
  qed
  have "list_all (basic_node w (ground_objects s1))
          (nodes (initialize_basic_iads_loop w (map snd (ground_objects s1)) s1))"
    by (rule initialize_basic_iads_loop_basic_nodes [OF assms(3)])
      (use wf1 assms(5) in auto)
  then have all: "list_all (basic_node w (ground_objects s1)) (nodes ?s')"
    by (simp add: initialize_basic_iads_def)
  from run one all show ?thesis by (intro conjI)
qed

theorem basic_fallback_witness:
  "ground_objects (ex_net True [(''X'', [])]) = []
   \<and> list_all (wf_tgo (ex_world True 20)) [0, 1, 2]
   \<and> inj (uuid4 (ex_world True 20))
   \<and> initialize_advanced (ex_world True 20)
        (ex_net True [(''X'', [])]
           \<lparr>ground_objects := register_ground_objects (ex_world True 20) [0, 1, 2] []\<rparr>)
       = Inr (ex_fallback\<lparr>nodes := [], draws := 0\<rparr>)
   \<and> initialize_network (ex_world True 20) [0, 1, 2] (ex_net True [(''X'', [])])
       = Inr ex_fallback
   \<and> length (nodes_on (ex_world True 20) ex_fallback 0) = 1
   \<and> list_all (basic_node (ex_world True 20) (ground_objects ex_fallback)) (nodes ex_fallback)"
proof -
  let ?W = "ex_world True 20"
  let ?s = "ex_net True [(''X'', [])]"
  let ?s1 = "ex_fallback\<lparr>nodes := [], draws := 0\<rparr>"
  have h1: "ground_objects ?s = []"
    by (simp add: ex_defs)
  have h2: "list_all (wf_tgo ?W) [0, 1, 2]"
    by (simp add: wf_tgo_def ex_defs)
  have h3: "inj (uuid4 ?W)"
    by (simp add: ex_defs)
  have h4: "initialize_advanced ?W
              (?s\<lparr>ground_objects := register_ground_objects ?W [0, 1, 2] []\<rparr>) = Inr ?s1"
    by (simp add: initialize_advanced_def initialize_network_from_config_def
          register_ground_objects_def ex_fallback_def ex_defs)
  have h5: "nodes ?s1 = []"
    by simp
  have e: "initialize_basic_iads ?W ?s1 = ex_fallback"
    by (simp add: net_defs ex_fallback_def ex_defs)
  have reg: "ground_objects ?s1 = ground_objects ex_fallback"
    by simp
  note t = basic_fallback [OF h1 h2 h3 h4 h5, unfolded e reg]
  have mem: "(''A'', 0) \<in> set (ground_objects ex_fallback)"
    by (simp add: ex_fallback_def)
  have k: "is_IadsGroundObject (tgos ?W 0) \<and> has_candidate ?W 0"
    by (simp add: has_candidate_def primary_candidate_def alive_units_def ex_defs)
  have one: "length (nodes_on ?W ex_fallback 0) = 1"
    using t mem k by fastforce
  from h1 h2 h3 h4 t one show ?thesis
    by (intro conjI) simp_all
qed

text \<open>
  C5 as stated fails at A: the configuration names no registered ground object, the
  basic mode runs, and the node of A has a connection, to its point defence.
\<close>

theorem basic_fallback_point_defense:
  "initialize_advanced (ex_world True 20)
        (ex_net True [(''X'', [])]
           \<lparr>ground_objects := register_ground_objects (ex_world True 20) [0, 1, 2] []\<rparr>)
       = Inr (ex_fallback\<lparr>nodes := [], draws := 0\<rparr>)
   \<and> initialize_network (ex_world True 20) [0, 1, 2] (ex_net True [(''X'', [])])
       = Inr ex_fallback
   \<and> connections (nodes ex_fallback ! 0) = [(0, 1)]
   \<and> \<not> list_all (\<lambda>n. connections n = []) (nodes ex_fallback)"
proof -
  have "initialize_advanced (ex_world True 20)
        (ex_net True [(''X'', [])]
           \<lparr>ground_objects := register_ground_objects (ex_world True 20) [0, 1, 2] []\<rparr>)
       = Inr (ex_fallback\<lparr>nodes := [], draws := 0\<rparr>)"
    by (simp add: initialize_advanced_def initialize_network_from_config_def
          register_ground_objects_def ex_fallback_def ex_defs)
  moreover have "initialize_network (ex_world True 20) [0, 1, 2] (ex_net True [(''X'', [])])
       = Inr ex_fallback"
    by (simp add: net_defs ex_fallback_def ex_defs)
  moreover have "connections (nodes ex_fallback ! 0) = [(0, 1)]"
    and "\<not> list_all (\<lambda>n. connections n = []) (nodes ex_fallback)"
    by (simp_all add: ex_fallback_def)
  ultimately show ?thesis by (intro conjI)
qed

end
